theory Spec2Isabelle
  imports Complex_Main
begin

section \<open>Data model\<close>

text \<open>
  The development follows \<^verbatim>\<open>feed_finder.py\<close>.  Python exceptions are values: every
  function that can raise returns a sum whose left injection is the exception.  The type
  \<open>exn\<close> stands for instances of Python's \<^verbatim>\<open>Exception\<close>, the class that every
  \<^verbatim>\<open>except Exception\<close> clause of the module catches.
\<close>

datatype exn = ZeroDivisionError string | TypeError string | OtherError string

fun str :: "exn \<Rightarrow> string" where
  "str (ZeroDivisionError m) = m"
| "str (TypeError m) = m"
| "str (OtherError m) = m"

text \<open>
  The dictionary built by \<^verbatim>\<open>_check_feed_url\<close> has the keys \<^verbatim>\<open>url\<close>, \<^verbatim>\<open>type\<close>
  (one of the strings \<^verbatim>\<open>'atom'\<close> and \<^verbatim>\<open>'rss'\<close>) and \<^verbatim>\<open>title\<close>; the one built by
  \<^verbatim>\<open>_discover_feeds\<close> has \<^verbatim>\<open>url\<close>, \<^verbatim>\<open>feeds\<close>, \<^verbatim>\<open>status\<close> (\<^verbatim>\<open>'success'\<close> or
  \<^verbatim>\<open>'error'\<close>) and \<^verbatim>\<open>error\<close>.
\<close>

datatype feed_type = RSS | ATOM

record feed_info =
  feed_url :: string
  ftype :: feed_type
  title :: string

datatype status = SUCCESS | ERROR

record site_result =
  site_url :: string
  feeds :: "feed_info list"
  status :: status
  error :: "string option"

text \<open>
  The classes.  Floats are modelled by exact rationals.  The only mutable attribute,
  \<^verbatim>\<open>RateLimiter.last_request\<close>, lives in the run-time state below.
\<close>

record RateLimiter =
  rate :: rat

record RetryStrategy =
  max_retries :: int
  base_delay :: rat

record FeedFinder =
  timeout :: int
  max_redirects :: int
  rate_limiter :: RateLimiter
  retry_strategy :: RetryStrategy

definition RateLimiter_init :: "rat \<Rightarrow> RateLimiter" where
  "RateLimiter_init requests_per_second = \<lparr>rate = requests_per_second\<rparr>"

definition RetryStrategy_init :: "int \<Rightarrow> rat \<Rightarrow> RetryStrategy" where
  "RetryStrategy_init max_retries' base_delay' =
     \<lparr>max_retries = max_retries', base_delay = base_delay'\<rparr>"

text \<open>The default of \<^verbatim>\<open>RetryStrategy.__init__\<close> for \<^verbatim>\<open>base_delay\<close>.\<close>

definition default_base_delay :: rat where
  "default_base_delay = 1"

text \<open>
  \<^verbatim>\<open>FeedFinder.__init__\<close> has four parameters and builds the retry strategy as
  \<^verbatim>\<open>RetryStrategy(max_retries)\<close>, so the base delay is the default.
\<close>

definition FeedFinder_init :: "int \<Rightarrow> int \<Rightarrow> int \<Rightarrow> rat \<Rightarrow> FeedFinder" where
  "FeedFinder_init timeout' max_redirects' max_retries' requests_per_second =
     \<lparr>timeout = timeout', max_redirects = max_redirects',
      rate_limiter = RateLimiter_init requests_per_second,
      retry_strategy = RetryStrategy_init max_retries' default_base_delay\<rparr>"

definition default_FeedFinder :: FeedFinder where
  "default_FeedFinder = FeedFinder_init 10 5 3 2"

definition COMMON_PATHS :: "string list" where
  "COMMON_PATHS =
     [''/feed'', ''/rss'', ''/atom.xml'', ''/feed.xml'', ''/rss.xml'', ''/index.xml'',
      ''/feed/atom'', ''/feed/rss'', ''/rss/atom'', ''/blog/feed'', ''/blog.atom'',
      ''/feed/wp-rss2.xml'', ''/wp-feed.php'', ''/wp-rss.php'',
      ''/blog/index.rss'', ''/syndication.axd'']"

section \<open>Strings\<close>

text \<open>\<^verbatim>\<open>s.startswith(p)\<close>, \<^verbatim>\<open>sub in s\<close>, \<^verbatim>\<open>s.lower()\<close> and \<^verbatim>\<open>s.rstrip('/')\<close>.\<close>

fun startswith :: "string \<Rightarrow> string \<Rightarrow> bool" where
  "startswith s [] = True"
| "startswith [] (p # ps) = False"
| "startswith (c # cs) (p # ps) = (c = p \<and> startswith cs ps)"

fun contains :: "string \<Rightarrow> string \<Rightarrow> bool" where
  "contains [] sub = (sub = [])"
| "contains (c # cs) sub = (startswith (c # cs) sub \<or> contains cs sub)"

definition lower_char :: "char \<Rightarrow> char" where
  "lower_char c =
     (let n = (of_char c :: nat) in if 65 \<le> n \<and> n \<le> 90 then char_of (n + 32) else c)"

definition lower :: "string \<Rightarrow> string" where
  "lower s = map lower_char s"

definition rstrip :: "char \<Rightarrow> string \<Rightarrow> string" where
  "rstrip c s = rev (dropWhile (\<lambda>x. x = c) (rev s))"

definition clean_url :: "string \<Rightarrow> string" where
  "clean_url url =
     rstrip (CHR ''/'')
       (if \<not> (startswith url ''http://'' \<or> startswith url ''https://'')
        then ''https://'' @ url else url)"

section \<open>Collaborators and run-time state\<close>

text \<open>
  What the feed parser returns: \<^verbatim>\<open>feed.get('bozo', 1)\<close> reads \<open>bozo\<close> (absent: 1) and
  \<^verbatim>\<open>feed.get('feed', {})\<close> reads the feed-level dictionary (absent: the empty one).
\<close>

record parsed =
  bozo :: "int option"
  feed :: "(string \<times> string) list option"

text \<open>
  What the HTML parser returns: the elements of the document in document order, each with
  its tag name, its attributes and its text (\<^verbatim>\<open>get_text()\<close>).
\<close>

record element =
  tag :: string
  attrs :: "(string \<times> string) list"
  text_of :: string

text \<open>
  The libraries and the network are parameters.  \<open>http_get url k\<close> is what the \<open>k\<close>-th GET
  of the run (counted from 0) returns for \<open>url\<close>: the decoded body and the status, or the
  exception raised by \<^verbatim>\<open>session.get\<close> or \<^verbatim>\<open>response.text()\<close>.  \<open>clock k\<close> is the \<open>k\<close>-th
  reading of \<^verbatim>\<open>time.time()\<close>.  \<open>ClientSession t r\<close> is the exception, if any, raised when
  the session is set up with total timeout \<open>t\<close> and \<open>max_redirects = r\<close>.
\<close>

record env =
  clock :: "nat \<Rightarrow> rat"
  http_get :: "string \<Rightarrow> nat \<Rightarrow> exn + (string \<times> int)"
  feedparser_parse :: "string \<Rightarrow> exn + parsed"
  BeautifulSoup :: "string \<Rightarrow> exn + element list"
  urllib_urljoin :: "string \<Rightarrow> string \<Rightarrow> exn + string"
  ClientSession :: "int \<Rightarrow> int \<Rightarrow> exn option"

text \<open>
  \<^verbatim>\<open>urljoin(base, url)\<close> of \<^verbatim>\<open>urllib.parse\<close> starts with \<^verbatim>\<open>if not base: return url\<close> and
  \<^verbatim>\<open>if not url: return base\<close>; what it makes of two non-empty strings, an exception
  included, is the parameter \<open>urllib_urljoin\<close>.
\<close>

definition urljoin :: "env \<Rightarrow> string \<Rightarrow> string \<Rightarrow> exn + string" where
  "urljoin env base url =
     (if base = [] then Inr url
      else if url = [] then Inr base
      else urllib_urljoin env base url)"

text \<open>
  Observable actions, in the order they happen.  \<open>FetchCall url\<close> marks a call of
  \<^verbatim>\<open>_fetch_url(session, url)\<close>; \<open>Get url\<close> is one \<^verbatim>\<open>session.get(url)\<close>;
  \<open>LockAcquire\<close> and \<open>LockRelease\<close> are the entry and the exit of
  \<^verbatim>\<open>async with self._lock\<close>; \<open>Sleep d\<close> is \<^verbatim>\<open>await asyncio.sleep(d)\<close>;
  \<open>Warning n e d\<close> and \<open>LogError url e\<close> are the two log calls.
\<close>

datatype event =
    LockAcquire
  | LockRelease
  | Sleep rat
  | FetchCall string
  | Get string
  | Warning nat exn rat
  | LogError string exn

record st =
  last_request :: rat
  ticks :: nat
  gets :: nat
  trace :: "event list"

definition init_st :: st where
  "init_st = \<lparr>last_request = 0, ticks = 0, gets = 0, trace = []\<rparr>"

definition emit :: "event \<Rightarrow> st \<Rightarrow> st" where
  "emit e s = s\<lparr>trace := trace s @ [e]\<rparr>"

definition time_time :: "env \<Rightarrow> st \<Rightarrow> rat \<times> st" where
  "time_time env s = (clock env (ticks s), s\<lparr>ticks := Suc (ticks s)\<rparr>)"

section \<open>RateLimiter.acquire\<close>

text \<open>
  The whole body runs inside \<^verbatim>\<open>async with self._lock\<close>; \<^verbatim>\<open>1/self.rate\<close> raises
  \<^verbatim>\<open>ZeroDivisionError\<close> when the rate is zero, and leaving the block releases the lock.
\<close>

definition acquire :: "RateLimiter \<Rightarrow> env \<Rightarrow> st \<Rightarrow> (exn + unit) \<times> st" where
  "acquire rl env s0 =
     (let s1 = emit LockAcquire s0;
          (now, s2) = time_time env s1
      in if rate rl = 0
         then (Inl (ZeroDivisionError ''division by zero''), emit LockRelease s2)
         else
           let wait_time = max 0 (1 / rate rl - (now - last_request s2));
               s3 = (if wait_time > 0 then emit (Sleep wait_time) s2 else s2);
               (t, s4) = time_time env s3
           in (Inr (), emit LockRelease (s4\<lparr>last_request := t\<rparr>)))"

section \<open>RetryStrategy.execute\<close>

text \<open>
  \<open>execute_from rs coroutine attempt n\<close> runs the iterations \<open>attempt, attempt + 1, \<dots>\<close> of
  the loop over \<^verbatim>\<open>range(self.max_retries)\<close>, of which \<open>n\<close> remain.  When the range is
  exhausted the Python function ends without a \<^verbatim>\<open>return\<close>: its value is \<^verbatim>\<open>None\<close>.
\<close>

fun execute_from ::
  "RetryStrategy \<Rightarrow> (st \<Rightarrow> (exn + 'a) \<times> st) \<Rightarrow> nat \<Rightarrow> nat \<Rightarrow> st \<Rightarrow> (exn + 'a option) \<times> st"
where
  "execute_from rs coroutine attempt 0 s = (Inr None, s)"
| "execute_from rs coroutine attempt (Suc n) s =
     (case coroutine s of
        (Inr v, s1) \<Rightarrow> (Inr (Some v), s1)
      | (Inl e, s1) \<Rightarrow>
          if int attempt = max_retries rs - 1 then (Inl e, s1)
          else
            let delay = base_delay rs * 2 ^ attempt;
                s2 = emit (Warning (attempt + 1) e delay) s1;
                s3 = emit (Sleep delay) s2
            in execute_from rs coroutine (Suc attempt) n s3)"

definition execute ::
  "RetryStrategy \<Rightarrow> (st \<Rightarrow> (exn + 'a) \<times> st) \<Rightarrow> st \<Rightarrow> (exn + 'a option) \<times> st"
where
  "execute rs coroutine s = execute_from rs coroutine 0 (nat (max_retries rs)) s"

section \<open>FeedFinder\<close>

text \<open>The inner \<^verbatim>\<open>_fetch\<close> of \<^verbatim>\<open>_fetch_url\<close>: one GET.\<close>

definition fetch :: "env \<Rightarrow> string \<Rightarrow> st \<Rightarrow> (exn + (string \<times> int)) \<times> st" where
  "fetch env url s = (http_get env url (gets s), emit (Get url) (s\<lparr>gets := Suc (gets s)\<rparr>))"

text \<open>
  \<^verbatim>\<open>_fetch_url\<close>: the rate limiter is awaited outside the \<^verbatim>\<open>try\<close>; what
  \<^verbatim>\<open>retry_strategy.execute\<close> raises is caught, logged and replaced by \<^verbatim>\<open>('', 0)\<close>.
\<close>

definition fetch_url ::
  "FeedFinder \<Rightarrow> env \<Rightarrow> string \<Rightarrow> st \<Rightarrow> (exn + (string \<times> int) option) \<times> st"
where
  "fetch_url ff env url s =
     (case acquire (rate_limiter ff) env (emit (FetchCall url) s) of
        (Inl e, s1) \<Rightarrow> (Inl e, s1)
      | (Inr _, s1) \<Rightarrow>
          (case execute (retry_strategy ff) (fetch env url) s1 of
             (Inr r, s2) \<Rightarrow> (Inr r, s2)
           | (Inl e, s2) \<Rightarrow> (Inr (Some ('''', 0)), emit (LogError url e) s2)))"

text \<open>
  Lines 119 to 129 of \<^verbatim>\<open>_check_feed_url\<close>: what is done with the fetched content and
  status.  A non-empty dictionary is what Python takes as true in
  \<^verbatim>\<open>feed.get('feed', {})\<close>.
\<close>

definition get_bozo :: "parsed \<Rightarrow> int" where
  "get_bozo p = (case bozo p of None \<Rightarrow> 1 | Some b \<Rightarrow> b)"

definition get_feed :: "parsed \<Rightarrow> (string \<times> string) list" where
  "get_feed p = (case feed p of None \<Rightarrow> [] | Some d \<Rightarrow> d)"

definition dict_get :: "(string \<times> string) list \<Rightarrow> string \<Rightarrow> string \<Rightarrow> string" where
  "dict_get d k dflt = (case map_of d k of None \<Rightarrow> dflt | Some v \<Rightarrow> v)"

definition validate :: "env \<Rightarrow> string \<Rightarrow> string \<Rightarrow> int \<Rightarrow> exn + feed_info option" where
  "validate env url content status' =
     (if status' \<noteq> 200 \<or> content = [] then Inr None
      else
        case feedparser_parse env content of
          Inl e \<Rightarrow> Inl e
        | Inr p \<Rightarrow>
            if get_bozo p = 0 \<and> get_feed p \<noteq> []
            then Inr (Some \<lparr>feed_url = url,
                            ftype = (if contains (lower content) ''atom'' then ATOM else RSS),
                            title = dict_get (get_feed p) ''title'' ''''\<rparr>)
            else Inr None)"

text \<open>
  \<^verbatim>\<open>_check_feed_url\<close>.  When \<^verbatim>\<open>_fetch_url\<close> returns \<^verbatim>\<open>None\<close>, unpacking it into
  \<^verbatim>\<open>content, status\<close> raises \<^verbatim>\<open>TypeError\<close>.
\<close>

definition unpack_error :: exn where
  "unpack_error = TypeError ''cannot unpack non-iterable NoneType object''"

definition check_feed_url ::
  "FeedFinder \<Rightarrow> env \<Rightarrow> string \<Rightarrow> st \<Rightarrow> (exn + feed_info option) \<times> st"
where
  "check_feed_url ff env url s =
     (case fetch_url ff env url s of
        (Inl e, s1) \<Rightarrow> (Inl e, s1)
      | (Inr None, s1) \<Rightarrow> (Inl unpack_error, s1)
      | (Inr (Some (content, status')), s1) \<Rightarrow> (validate env url content status', s1))"

text \<open>
  \<^verbatim>\<open>soup.find_all('link')\<close>, \<^verbatim>\<open>soup.find_all('a', href=True)\<close>, \<^verbatim>\<open>link.get(k)\<close> and
  \<^verbatim>\<open>link.get(k, default)\<close>.
\<close>

definition el_get :: "element \<Rightarrow> string \<Rightarrow> string option" where
  "el_get el k = map_of (attrs el) k"

definition el_get_default :: "element \<Rightarrow> string \<Rightarrow> string \<Rightarrow> string" where
  "el_get_default el k dflt = (case el_get el k of None \<Rightarrow> dflt | Some v \<Rightarrow> v)"

definition find_all :: "string \<Rightarrow> element list \<Rightarrow> element list" where
  "find_all name soup = filter (\<lambda>el. tag el = name) soup"

definition find_all_href :: "string \<Rightarrow> element list \<Rightarrow> element list" where
  "find_all_href name soup = filter (\<lambda>el. tag el = name \<and> el_get el ''href'' \<noteq> None) soup"

definition feed_mime_types :: "string list" where
  "feed_mime_types = [''application/rss+xml'', ''application/atom+xml'']"

definition feed_words :: "string list" where
  "feed_words = [''rss'', ''feed'', ''atom'', ''subscribe'']"

text \<open>
  The first loop of \<^verbatim>\<open>_find_feeds_in_html\<close> (link tags), with the list \<^verbatim>\<open>feeds\<close> built
  so far.  An exception leaves the function, and the local list is lost with it.
\<close>

fun check_link_tags ::
  "FeedFinder \<Rightarrow> env \<Rightarrow> string \<Rightarrow> element list \<Rightarrow> feed_info list \<Rightarrow> st
     \<Rightarrow> (exn + feed_info list) \<times> st"
where
  "check_link_tags ff env url [] feeds' s = (Inr feeds', s)"
| "check_link_tags ff env url (link # links) feeds' s =
     (if el_get link ''type'' \<in> Some ` set feed_mime_types
      then
        case urljoin env url (el_get_default link ''href'' '''') of
          Inl e \<Rightarrow> (Inl e, s)
        | Inr feed_url' \<Rightarrow>
            if feed_url' \<noteq> []
            then
              case check_feed_url ff env feed_url' s of
                (Inl e, s1) \<Rightarrow> (Inl e, s1)
              | (Inr None, s1) \<Rightarrow> check_link_tags ff env url links feeds' s1
              | (Inr (Some feed_info'), s1) \<Rightarrow>
                  check_link_tags ff env url links (feeds' @ [feed_info']) s1
            else check_link_tags ff env url links feeds' s
      else check_link_tags ff env url links feeds' s)"

text \<open>The second loop (anchors with an \<^verbatim>\<open>href\<close>).\<close>

fun check_a_tags ::
  "FeedFinder \<Rightarrow> env \<Rightarrow> string \<Rightarrow> element list \<Rightarrow> feed_info list \<Rightarrow> st
     \<Rightarrow> (exn + feed_info list) \<times> st"
where
  "check_a_tags ff env url [] feeds' s = (Inr feeds', s)"
| "check_a_tags ff env url (link # links) feeds' s =
     (let href = el_get_default link ''href'' '''';
          text' = lower (text_of link)
      in if list_ex (\<lambda>word. contains text' word) feed_words
         then
           case urljoin env url href of
             Inl e \<Rightarrow> (Inl e, s)
           | Inr feed_url' \<Rightarrow>
               (case check_feed_url ff env feed_url' s of
                  (Inl e, s1) \<Rightarrow> (Inl e, s1)
                | (Inr None, s1) \<Rightarrow> check_a_tags ff env url links feeds' s1
                | (Inr (Some feed_info'), s1) \<Rightarrow>
                    check_a_tags ff env url links (feeds' @ [feed_info']) s1)
         else check_a_tags ff env url links feeds' s)"

definition find_feeds_in_html ::
  "FeedFinder \<Rightarrow> env \<Rightarrow> string \<Rightarrow> string \<Rightarrow> st \<Rightarrow> (exn + feed_info list) \<times> st"
where
  "find_feeds_in_html ff env url content s =
     (case BeautifulSoup env content of
        Inl e \<Rightarrow> (Inl e, s)
      | Inr soup \<Rightarrow>
          (case check_link_tags ff env url (find_all ''link'' soup) [] s of
             (Inl e, s1) \<Rightarrow> (Inl e, s1)
           | (Inr feeds', s1) \<Rightarrow>
               check_a_tags ff env url (find_all_href ''a'' soup) feeds' s1))"

text \<open>
  The loop over \<^verbatim>\<open>COMMON_PATHS\<close> in \<^verbatim>\<open>_discover_feeds\<close>.  It appends to
  \<^verbatim>\<open>result['feeds']\<close> in place, so what was appended before an exception stays in the
  result: the loop returns the list together with the exception, if any.
\<close>

fun check_paths ::
  "FeedFinder \<Rightarrow> env \<Rightarrow> string \<Rightarrow> string list \<Rightarrow> feed_info list \<Rightarrow> st
     \<Rightarrow> (exn option \<times> feed_info list) \<times> st"
where
  "check_paths ff env url [] feeds' s = ((None, feeds'), s)"
| "check_paths ff env url (path # paths) feeds' s =
     (case urljoin env url path of
        Inl e \<Rightarrow> ((Some e, feeds'), s)
      | Inr feed_url' \<Rightarrow>
          (case check_feed_url ff env feed_url' s of
             (Inl e, s1) \<Rightarrow> ((Some e, feeds'), s1)
           | (Inr None, s1) \<Rightarrow> check_paths ff env url paths feeds' s1
           | (Inr (Some feed_info'), s1) \<Rightarrow>
               check_paths ff env url paths (feeds' @ [feed_info']) s1))"

text \<open>
  Lines 180 to 184: the HTML fallback, entered with the result whose \<^verbatim>\<open>feeds\<close> are empty.
\<close>

definition failed :: "site_result \<Rightarrow> exn \<Rightarrow> site_result" where
  "failed result e = result\<lparr>status := ERROR, error := Some (str e)\<rparr>"

definition check_html ::
  "FeedFinder \<Rightarrow> env \<Rightarrow> string \<Rightarrow> site_result \<Rightarrow> st \<Rightarrow> site_result \<times> st"
where
  "check_html ff env url result s =
     (case fetch_url ff env url s of
        (Inl e, s1) \<Rightarrow> (failed result e, s1)
      | (Inr None, s1) \<Rightarrow> (failed result unpack_error, s1)
      | (Inr (Some (content, status')), s1) \<Rightarrow>
          if status' = 200 \<and> content \<noteq> []
          then
            case find_feeds_in_html ff env url content s1 of
              (Inl e, s2) \<Rightarrow> (failed result e, s2)
            | (Inr html_feeds, s2) \<Rightarrow> (result\<lparr>feeds := feeds result @ html_feeds\<rparr>, s2)
          else (result, s1))"

text \<open>\<^verbatim>\<open>_discover_feeds\<close>; \<^verbatim>\<open>find_feed(url)\<close> runs it alone, from a fresh event loop.\<close>

definition discover_feeds :: "FeedFinder \<Rightarrow> env \<Rightarrow> string \<Rightarrow> st \<Rightarrow> site_result \<times> st" where
  "discover_feeds ff env raw s =
     (let url = clean_url raw;
          result = \<lparr>site_url = url, feeds = [], status = SUCCESS, error = None\<rparr>
      in case ClientSession env (timeout ff) (max_redirects ff) of
           Some e \<Rightarrow> (failed result e, s)
         | None \<Rightarrow>
             (case check_paths ff env url COMMON_PATHS [] s of
                ((Some e, feeds'), s1) \<Rightarrow> (failed (result\<lparr>feeds := feeds'\<rparr>) e, s1)
              | ((None, feeds'), s1) \<Rightarrow>
                  if feeds' = [] then check_html ff env url (result\<lparr>feeds := feeds'\<rparr>) s1
                  else (result\<lparr>feeds := feeds'\<rparr>, s1)))"

section \<open>Observations on traces\<close>

text \<open>The URLs of the calls of \<^verbatim>\<open>_fetch_url\<close> and the delays slept, in order.\<close>

fun fetch_calls :: "event list \<Rightarrow> string list" where
  "fetch_calls [] = []"
| "fetch_calls (FetchCall u # es) = u # fetch_calls es"
| "fetch_calls (e # es) = fetch_calls es"

fun sleeps :: "event list \<Rightarrow> rat list" where
  "sleeps [] = []"
| "sleeps (Sleep d # es) = d # sleeps es"
| "sleeps (e # es) = sleeps es"

text \<open>
  \<open>lock_at_sleeps held es\<close> lists, for every \<open>Sleep\<close> of \<open>es\<close>, whether the lock is held
  when it starts (\<open>held\<close> is the state of the lock before \<open>es\<close>).
\<close>

fun lock_at_sleeps :: "bool \<Rightarrow> event list \<Rightarrow> bool list" where
  "lock_at_sleeps held [] = []"
| "lock_at_sleeps held (LockAcquire # es) = lock_at_sleeps True es"
| "lock_at_sleeps held (LockRelease # es) = lock_at_sleeps False es"
| "lock_at_sleeps held (Sleep d # es) = held # lock_at_sleeps held es"
| "lock_at_sleeps held (e # es) = lock_at_sleeps held es"

section \<open>Example environments\<close>

text \<open>
  A URL resolver for the examples: the sites below have no path of their own, so joining
  is concatenation, and an empty reference gives the base.
\<close>

definition concat_urljoin :: "string \<Rightarrow> string \<Rightarrow> exn + string" where
  "concat_urljoin base ref = Inr (base @ ref)"

text \<open>A site where every request fails at the network level.\<close>

definition down_env :: env where
  "down_env =
     \<lparr>clock = (\<lambda>k. 0),
      http_get = (\<lambda>u k. Inl (OtherError ''connection refused'')),
      feedparser_parse = (\<lambda>c. Inr \<lparr>bozo = Some 1, feed = Some []\<rparr>),
      BeautifulSoup = (\<lambda>c. Inr []),
      urllib_urljoin = concat_urljoin,
      ClientSession = (\<lambda>t r. None)\<rparr>"

text \<open>
  A feed parser for the examples: two well-formed documents, one body on which the parser
  itself raises, one truncated document for which it gives a feed-level object together
  with the malformed signal, and the malformed signal alone for everything else.
\<close>

definition rss_body :: string where
  "rss_body = ''<rss><channel><title>News</title></channel></rss>''"

definition atom_body :: string where
  "atom_body = ''<feed xmlns=http://www.w3.org/2005/Atom><title>Notes</title></feed>''"

definition demo_parse :: "string \<Rightarrow> exn + parsed" where
  "demo_parse content =
     (if content = rss_body then Inr \<lparr>bozo = Some 0, feed = Some [(''title'', ''News'')]\<rparr>
      else if content = atom_body
      then Inr \<lparr>bozo = Some 0, feed = Some [(''title'', ''Notes'')]\<rparr>
      else if content = ''boom'' then Inl (OtherError ''parser crashed'')
      else if content = ''<rss><title>Broken</title>''
      then Inr \<lparr>bozo = Some 1, feed = Some [(''title'', ''Broken'')]\<rparr>
      else Inr \<lparr>bozo = Some 1, feed = Some []\<rparr>)"

text \<open>
  A site given by its pages (URL and body, served with status 200; every other URL is a
  404) and by the elements of the document the HTML parser makes of any body.
\<close>

definition site_env :: "(string \<times> string) list \<Rightarrow> element list \<Rightarrow> env" where
  "site_env pages soup =
     \<lparr>clock = (\<lambda>k. of_nat k),
      http_get = (\<lambda>u k. case map_of pages u of
                           Some body \<Rightarrow> Inr (body, 200)
                         | None \<Rightarrow> Inr (''not found'', 404)),
      feedparser_parse = demo_parse,
      BeautifulSoup = (\<lambda>c. Inr soup),
      urllib_urljoin = concat_urljoin,
      ClientSession = (\<lambda>t r. None)\<rparr>"

text \<open>A site whose first two requests time out and whose third one is answered.\<close>

definition flaky_env :: env where
  "flaky_env =
     \<lparr>clock = (\<lambda>k. of_nat k),
      http_get = (\<lambda>u k. if k < 2 then Inl (OtherError ''timeout'') else Inr (rss_body, 200)),
      feedparser_parse = demo_parse,
      BeautifulSoup = (\<lambda>c. Inr []),
      urllib_urljoin = concat_urljoin,
      ClientSession = (\<lambda>t r. None)\<rparr>"

text \<open>
  Three sites at \<^verbatim>\<open>https://blog.example\<close>.  The first serves a feed at \<^verbatim>\<open>/feed\<close> and one at
  \<^verbatim>\<open>/rss.xml\<close>.  The second serves no known path; its home page points to
  \<^verbatim>\<open>/news.xml\<close> twice, from a \<^verbatim>\<open>link\<close> element and from an anchor.  The third serves a feed
  at \<^verbatim>\<open>/feed\<close> and, at \<^verbatim>\<open>/rss\<close>, a body on which the feed parser raises.
\<close>

definition two_feeds_env :: env where
  "two_feeds_env =
     site_env [(''https://blog.example/feed'', rss_body),
               (''https://blog.example/rss.xml'', atom_body)] []"

definition news_link :: element where
  "news_link = \<lparr>tag = ''link'',
                 attrs = [(''type'', ''application/rss+xml''), (''href'', ''/news.xml'')],
                 text_of = ''''\<rparr>"

definition news_anchor :: element where
  "news_anchor = \<lparr>tag = ''a'', attrs = [(''href'', ''/news.xml'')], text_of = ''RSS Feed''\<rparr>"

definition linked_env :: env where
  "linked_env =
     site_env [(''https://blog.example'', ''<html>home</html>''),
               (''https://blog.example/news.xml'', rss_body)]
              [news_link, news_anchor]"


text \<open>A \<^verbatim>\<open>link\<close> element of a feed type that has no \<^verbatim>\<open>href\<close>.\<close>

definition bare_link :: element where
  "bare_link = \<lparr>tag = ''link'', attrs = [(''type'', ''application/atom+xml'')], text_of = ''''\<rparr>"

text \<open>The candidates these sites validate.\<close>

definition feed_at_feed :: feed_info where
  "feed_at_feed = \<lparr>feed_url = ''https://blog.example/feed'', ftype = RSS, title = ''News''\<rparr>"

definition feed_at_rss_xml :: feed_info where
  "feed_at_rss_xml =
     \<lparr>feed_url = ''https://blog.example/rss.xml'', ftype = ATOM, title = ''Notes''\<rparr>"

definition feed_at_news :: feed_info where
  "feed_at_news = \<lparr>feed_url = ''https://blog.example/news.xml'', ftype = RSS, title = ''News''\<rparr>"

section \<open>The scanner and the validation of its candidates, as the specification words them\<close>

text \<open>
  Section 4.5 of the specification: \<open>scan\<close> gives candidate URLs only, in two passes put one
  after the other.  First every \<^verbatim>\<open>link\<close> element whose type is one of the two feed types,
  then every anchor whose \<^verbatim>\<open>href\<close> is present and whose text, lowercased, contains one of
  the four words; the \<^verbatim>\<open>href\<close> of each is resolved against the base URL.
\<close>

definition is_feed_link :: "element \<Rightarrow> bool" where
  "is_feed_link el \<longleftrightarrow> tag el = ''link'' \<and> el_get el ''type'' \<in> Some ` set feed_mime_types"

definition is_feed_anchor :: "element \<Rightarrow> bool" where
  "is_feed_anchor el \<longleftrightarrow>
     tag el = ''a'' \<and> el_get el ''href'' \<noteq> None \<and>
     list_ex (\<lambda>word. contains (lower (text_of el)) word) feed_words"

fun resolve_all :: "env \<Rightarrow> string \<Rightarrow> string list \<Rightarrow> exn + string list" where
  "resolve_all env base [] = Inr []"
| "resolve_all env base (r # rs) =
     (case urljoin env base r of
        Inl e \<Rightarrow> Inl e
      | Inr u \<Rightarrow>
          (case resolve_all env base rs of
             Inl e \<Rightarrow> Inl e
           | Inr us \<Rightarrow> Inr (u # us)))"

definition href_of :: "element \<Rightarrow> string" where
  "href_of el = el_get_default el ''href'' ''''"

definition scan :: "env \<Rightarrow> string \<Rightarrow> element list \<Rightarrow> exn + string list" where
  "scan env base soup =
     resolve_all env base
       (map href_of (filter is_feed_link soup) @ map href_of (filter is_feed_anchor soup))"

text \<open>
  Section 4.6, step 3: fetch and validate every candidate, in order, keeping the positive
  results in that order.
\<close>

fun validate_all ::
  "FeedFinder \<Rightarrow> env \<Rightarrow> string list \<Rightarrow> st \<Rightarrow> (exn + feed_info list) \<times> st"
where
  "validate_all ff env [] s = (Inr [], s)"
| "validate_all ff env (u # us) s =
     (case check_feed_url ff env u s of
        (Inl e, s1) \<Rightarrow> (Inl e, s1)
      | (Inr r, s1) \<Rightarrow>
          (case validate_all ff env us s1 of
             (Inl e, s2) \<Rightarrow> (Inl e, s2)
           | (Inr found, s2) \<Rightarrow>
               (Inr ((case r of None \<Rightarrow> [] | Some fi \<Rightarrow> [fi]) @ found), s2)))"

text \<open>
  What a run of the loop over the known paths observes: the paths it probes, in order, each
  with the outcome of its probe (the candidate, or none).  The list ends where the loop
  does: at the last path, or at the first resolution or probe that raises.
\<close>

fun probes ::
  "FeedFinder \<Rightarrow> env \<Rightarrow> string \<Rightarrow> string list \<Rightarrow> st \<Rightarrow> (string \<times> feed_info option) list"
where
  "probes ff env url [] s = []"
| "probes ff env url (path # paths) s =
     (case urljoin env url path of
        Inl e \<Rightarrow> []
      | Inr feed_url' \<Rightarrow>
          (case check_feed_url ff env feed_url' s of
             (Inl e, s1) \<Rightarrow> []
           | (Inr r, s1) \<Rightarrow> (path, r) # probes ff env url paths s1))"

section \<open>Strings\<close>

lemma startswith_iff: "startswith s p \<longleftrightarrow> (\<exists>post. s = p @ post)"
  by (induction s p rule: startswith.induct) auto

lemma contains_iff: "contains s sub \<longleftrightarrow> (\<exists>pre post. s = pre @ sub @ post)"
proof (induction s)
  case Nil
  then show ?case by auto
next
  case (Cons c cs)
  show ?case
  proof
    assume "contains (c # cs) sub"
    then consider "startswith (c # cs) sub" | "contains cs sub" by auto
    then show "\<exists>pre post. c # cs = pre @ sub @ post"
    proof cases
      case 1
      then obtain post where "c # cs = sub @ post" by (auto simp: startswith_iff)
      then have "c # cs = [] @ sub @ post" by simp
      then show ?thesis by blast
    next
      case 2
      then obtain pre post where "cs = pre @ sub @ post" using Cons.IH by auto
      then have "c # cs = (c # pre) @ sub @ post" by simp
      then show ?thesis by blast
    qed
  next
    assume "\<exists>pre post. c # cs = pre @ sub @ post"
    then obtain pre post where eq: "c # cs = pre @ sub @ post" by auto
    show "contains (c # cs) sub"
    proof (cases pre)
      case Nil
      then have "startswith (c # cs) sub" using eq by (auto simp: startswith_iff)
      then show ?thesis by simp
    next
      case (Cons a pre')
      then have "cs = pre' @ sub @ post" using eq by simp
      then have "contains cs sub" using Cons.IH by blast
      then show ?thesis by simp
    qed
  qed
qed

text \<open>
  \<^verbatim>\<open>sub in content.lower()\<close>: some stretch of \<open>content\<close> is \<open>sub\<close> up to the case of its
  letters.
\<close>

lemma contains_lower_iff:
  "contains (lower content) sub \<longleftrightarrow>
     (\<exists>pre mid post. content = pre @ mid @ post \<and> lower mid = sub)"
proof
  assume "contains (lower content) sub"
  then obtain pre post where "map lower_char content = pre @ sub @ post"
    by (auto simp: contains_iff lower_def)
  then obtain us vs where c1: "content = us @ vs" and "pre = map lower_char us"
    and "sub @ post = map lower_char vs"
    by (auto simp: map_eq_append_conv)
  then obtain ms ps where c2: "vs = ms @ ps" and "sub = map lower_char ms"
    by (auto simp: append_eq_map_conv)
  then have "content = us @ ms @ ps \<and> lower ms = sub"
    using c1 by (simp add: lower_def)
  then show "\<exists>pre mid post. content = pre @ mid @ post \<and> lower mid = sub"
    by blast
next
  assume "\<exists>pre mid post. content = pre @ mid @ post \<and> lower mid = sub"
  then obtain pre mid post where "content = pre @ mid @ post" and "lower mid = sub"
    by blast
  then have "lower content = lower pre @ sub @ lower post"
    by (simp add: lower_def)
  then show "contains (lower content) sub"
    unfolding contains_iff by blast
qed

text \<open>A cleaned URL starts with its scheme, so stripping the slashes cannot empty it.\<close>

lemma rstrip_eq_Nil: "rstrip c s = [] \<longleftrightarrow> (\<forall>x \<in> set s. x = c)"
proof -
  have "dropWhile (\<lambda>x. x = c) (rev s) = [] \<longleftrightarrow> (\<forall>x \<in> set (rev s). x = c)"
    by (simp add: dropWhile_eq_Nil_conv)
  then show ?thesis by (simp add: rstrip_def)
qed

lemma startswith_Cons_mem: "startswith s (c # p) \<Longrightarrow> c \<in> set s"
  by (cases s) auto

lemma clean_url_nonempty: "clean_url raw \<noteq> []"
proof -
  let ?u = "if \<not> (startswith raw ''http://'' \<or> startswith raw ''https://'')
            then ''https://'' @ raw else raw"
  have h: "CHR ''h'' \<in> set ?u"
  proof (cases "startswith raw ''http://'' \<or> startswith raw ''https://''")
    case True
    then have "CHR ''h'' \<in> set raw"
      using startswith_Cons_mem by blast
    then show ?thesis using True by simp
  next
    case False
    then show ?thesis by simp
  qed
  have "CHR ''h'' \<noteq> CHR ''/''" by simp
  then have "\<not> (\<forall>x \<in> set ?u. x = CHR ''/'')"
    using h by blast
  then have "rstrip (CHR ''/'') ?u \<noteq> []"
    by (simp only: rstrip_eq_Nil not_False_eq_True)
  then show ?thesis
    unfolding clean_url_def .
qed

section \<open>Traces\<close>

lemma sleeps_append: "sleeps (xs @ ys) = sleeps xs @ sleeps ys"
  by (induction xs rule: sleeps.induct) auto

lemma fetch_calls_append: "fetch_calls (xs @ ys) = fetch_calls xs @ fetch_calls ys"
  by (induction xs rule: fetch_calls.induct) auto

section \<open>The retry strategy\<close>

text \<open>
  The loop of \<^verbatim>\<open>execute\<close> around the GET of \<^verbatim>\<open>_fetch_url\<close>, from attempt \<open>a\<close> with \<open>m\<close>
  iterations left.  The outcome of every GET is arbitrary, so \<open>gets\<close> counts the attempts
  and \<open>http_get env url (gets s + i)\<close> is the outcome of the \<open>i\<close>-th of them.
\<close>

lemma execute_from_gets:
  "gets (snd (execute_from rs (fetch env url) a m s)) \<le> gets s + m"
proof (induction m arbitrary: a s)
  case 0
  then show ?case by simp
next
  case (Suc m)
  let ?s1 = "emit (Get url) (s\<lparr>gets := Suc (gets s)\<rparr>)"
  have fs: "fetch env url s = (http_get env url (gets s), ?s1)"
    by (simp add: fetch_def)
  show ?case
  proof (cases "http_get env url (gets s)")
    case (Inr v)
    then show ?thesis by (simp add: fs emit_def)
  next
    case (Inl e)
    let ?d = "base_delay rs * 2 ^ a"
    let ?s3 = "emit (Sleep ?d) (emit (Warning (a + 1) e ?d) ?s1)"
    have "gets (snd (execute_from rs (fetch env url) (Suc a) m ?s3)) \<le> gets ?s3 + m"
      by (rule Suc.IH)
    then show ?thesis using Inl by (simp add: fs emit_def Let_def)
  qed
qed

lemma execute_from_success:
  assumes "int (a + m) = max_retries rs" and "k < m"
    and "\<forall>i<k. http_get env url (gets s + i) = Inl (f i)"
    and "http_get env url (gets s + k) = Inr v"
  shows "\<exists>s'. execute_from rs (fetch env url) a m s = (Inr (Some v), s') \<and>
          gets s' = gets s + k + 1 \<and>
          sleeps (trace s') = sleeps (trace s) @ map (\<lambda>i. base_delay rs * 2 ^ (a + i)) [0..<k]"
  using assms
proof (induction m arbitrary: a k s f)
  case 0
  then show ?case by simp
next
  case (Suc m)
  let ?s1 = "emit (Get url) (s\<lparr>gets := Suc (gets s)\<rparr>)"
  have fs: "fetch env url s = (http_get env url (gets s), ?s1)"
    by (simp add: fetch_def)
  show ?case
  proof (cases k)
    case 0
    then show ?thesis using Suc.prems
      by (simp add: fs emit_def sleeps_append)
  next
    case (Suc k')
    then have e0: "http_get env url (gets s) = Inl (f 0)"
      using Suc.prems(3) by force
    let ?d = "base_delay rs * 2 ^ a"
    let ?s3 = "emit (Sleep ?d) (emit (Warning (a + 1) (f 0) ?d) ?s1)"
    have notlast: "int a \<noteq> max_retries rs - 1"
      using Suc.prems(1,2) \<open>k = Suc k'\<close> by linarith
    have g3: "gets ?s3 = Suc (gets s)" by (simp add: emit_def)
    have p1: "int (Suc a + m) = max_retries rs" using Suc.prems(1) by simp
    have p2: "k' < m" using Suc.prems(2) \<open>k = Suc k'\<close> by simp
    have p3: "\<forall>i<k'. http_get env url (gets ?s3 + i) = Inl ((f \<circ> Suc) i)"
      using Suc.prems(3) \<open>k = Suc k'\<close> g3 by auto
    have p4: "http_get env url (gets ?s3 + k') = Inr v"
      using Suc.prems(4) \<open>k = Suc k'\<close> g3 by simp
    from Suc.IH [OF p1 p2 p3 p4]
    obtain s' where r: "execute_from rs (fetch env url) (Suc a) m ?s3 = (Inr (Some v), s')"
      and g: "gets s' = gets ?s3 + k' + 1"
      and sl: "sleeps (trace s') =
                 sleeps (trace ?s3) @ map (\<lambda>i. base_delay rs * 2 ^ (Suc a + i)) [0..<k']"
      by blast
    have st3: "sleeps (trace ?s3) = sleeps (trace s) @ [?d]"
      by (simp add: emit_def sleeps_append)
    have "execute_from rs (fetch env url) a (Suc m) s = (Inr (Some v), s')"
      using e0 notlast r by (simp add: fs Let_def)
    moreover have "gets s' = gets s + k + 1"
      using g g3 \<open>k = Suc k'\<close> by simp
    moreover have "sleeps (trace s') =
        sleeps (trace s) @ map (\<lambda>i. base_delay rs * 2 ^ (a + i)) [0..<k]"
      using sl st3 \<open>k = Suc k'\<close> by (simp add: map_upt_Suc del: upt_Suc)
    ultimately show ?thesis by blast
  qed
qed

lemma execute_from_all_fail:
  assumes "int (a + m) = max_retries rs" and "0 < m"
    and "\<forall>i<m. http_get env url (gets s + i) = Inl (f i)"
  shows "\<exists>s'. execute_from rs (fetch env url) a m s = (Inl (f (m - 1)), s') \<and>
          gets s' = gets s + m \<and>
          sleeps (trace s') =
            sleeps (trace s) @ map (\<lambda>i. base_delay rs * 2 ^ (a + i)) [0..<m - 1]"
  using assms
proof (induction m arbitrary: a s f)
  case 0
  then show ?case by simp
next
  case (Suc m)
  let ?s1 = "emit (Get url) (s\<lparr>gets := Suc (gets s)\<rparr>)"
  have fs: "fetch env url s = (http_get env url (gets s), ?s1)"
    by (simp add: fetch_def)
  have e0: "http_get env url (gets s) = Inl (f 0)"
    using Suc.prems(3) by force
  show ?case
  proof (cases m)
    case 0
    then have "int a = max_retries rs - 1" using Suc.prems(1) by simp
    then show ?thesis using e0 0
      by (simp add: fs emit_def sleeps_append)
  next
    case (Suc m')
    let ?d = "base_delay rs * 2 ^ a"
    let ?s3 = "emit (Sleep ?d) (emit (Warning (a + 1) (f 0) ?d) ?s1)"
    have notlast: "int a \<noteq> max_retries rs - 1"
      using Suc.prems(1) \<open>m = Suc m'\<close> by linarith
    have g3: "gets ?s3 = Suc (gets s)" by (simp add: emit_def)
    have p1: "int (Suc a + m) = max_retries rs" using Suc.prems(1) by simp
    have p2: "0 < m" using \<open>m = Suc m'\<close> by simp
    have p3: "\<forall>i<m. http_get env url (gets ?s3 + i) = Inl ((f \<circ> Suc) i)"
      using Suc.prems(3) g3 by auto
    from Suc.IH [OF p1 p2 p3]
    obtain s' where r: "execute_from rs (fetch env url) (Suc a) m ?s3 = (Inl ((f \<circ> Suc) (m - 1)), s')"
      and g: "gets s' = gets ?s3 + m"
      and sl: "sleeps (trace s') =
                 sleeps (trace ?s3) @ map (\<lambda>i. base_delay rs * 2 ^ (Suc a + i)) [0..<m - 1]"
      by blast
    have st3: "sleeps (trace ?s3) = sleeps (trace s) @ [?d]"
      by (simp add: emit_def sleeps_append)
    have "execute_from rs (fetch env url) a (Suc m) s = (Inl (f (Suc m - 1)), s')"
      using e0 notlast r \<open>m = Suc m'\<close> by (simp add: fs Let_def)
    moreover have "gets s' = gets s + Suc m"
      using g g3 by simp
    moreover have "sleeps (trace s') =
        sleeps (trace s) @ map (\<lambda>i. base_delay rs * 2 ^ (a + i)) [0..<Suc m - 1]"
      using sl st3 \<open>m = Suc m'\<close> by (simp add: map_upt_Suc del: upt_Suc)
    ultimately show ?thesis by blast
  qed
qed

lemma execute_no_attempts:
  "max_retries rs \<le> 0 \<Longrightarrow> execute rs coroutine s = (Inr None, s)"
  by (simp add: execute_def)

text \<open>
  Claim C4: \<^verbatim>\<open>execute\<close> makes at most \<^verbatim>\<open>max_retries\<close> attempts (3 in a default session).
  If the attempts before the \<open>k\<close>-th fail and the \<open>k\<close>-th succeeds, its result is returned,
  no failure is raised, and the delays slept are \<open>base_delay * 2 ^ i\<close> for
  \<open>i = 0, \<dots>, k - 1\<close>.  If every attempt fails, there are exactly \<^verbatim>\<open>max_retries\<close>
  attempts, the failure of the last one is raised, and the delays slept are
  \<open>base_delay * 2 ^ i\<close> for every attempt but the last.  The last failure exists when
  there is an attempt at all: with \<^verbatim>\<open>max_retries\<close> below 1 the range of the loop is empty
  (lemma \<open>execute_no_attempts\<close>).
\<close>

theorem C4_execute:
  "gets (snd (execute rs (fetch env url) s)) \<le> gets s + nat (max_retries rs) \<and>
   (\<forall>k f v. int k < max_retries rs \<and>
        (\<forall>i<k. http_get env url (gets s + i) = Inl (f i)) \<and>
        http_get env url (gets s + k) = Inr v \<longrightarrow>
      fst (execute rs (fetch env url) s) = Inr (Some v) \<and>
      gets (snd (execute rs (fetch env url) s)) = gets s + k + 1 \<and>
      sleeps (trace (snd (execute rs (fetch env url) s))) =
        sleeps (trace s) @ map (\<lambda>i. base_delay rs * 2 ^ i) [0..<k]) \<and>
   (\<forall>f. 1 \<le> max_retries rs \<and>
        (\<forall>i<nat (max_retries rs). http_get env url (gets s + i) = Inl (f i)) \<longrightarrow>
      fst (execute rs (fetch env url) s) = Inl (f (nat (max_retries rs) - 1)) \<and>
      gets (snd (execute rs (fetch env url) s)) = gets s + nat (max_retries rs) \<and>
      sleeps (trace (snd (execute rs (fetch env url) s))) =
        sleeps (trace s) @ map (\<lambda>i. base_delay rs * 2 ^ i) [0..<nat (max_retries rs) - 1]) \<and>
   max_retries (retry_strategy default_FeedFinder) = 3"
proof (intro conjI allI impI)
  show "gets (snd (execute rs (fetch env url) s)) \<le> gets s + nat (max_retries rs)"
    unfolding execute_def by (rule execute_from_gets)
next
  fix k f v
  assume h: "int k < max_retries rs \<and>
        (\<forall>i<k. http_get env url (gets s + i) = Inl (f i)) \<and>
        http_get env url (gets s + k) = Inr v"
  then have "int (0 + nat (max_retries rs)) = max_retries rs" and "k < nat (max_retries rs)"
    by auto
  from execute_from_success [OF this, of env url s f v] h
  obtain s' where "execute rs (fetch env url) s = (Inr (Some v), s')"
    "gets s' = gets s + k + 1"
    "sleeps (trace s') = sleeps (trace s) @ map (\<lambda>i. base_delay rs * 2 ^ i) [0..<k]"
    unfolding execute_def by auto
  then show "fst (execute rs (fetch env url) s) = Inr (Some v)"
    "gets (snd (execute rs (fetch env url) s)) = gets s + k + 1"
    "sleeps (trace (snd (execute rs (fetch env url) s))) =
        sleeps (trace s) @ map (\<lambda>i. base_delay rs * 2 ^ i) [0..<k]"
    by simp_all
next
  fix f
  assume h: "1 \<le> max_retries rs \<and>
        (\<forall>i<nat (max_retries rs). http_get env url (gets s + i) = Inl (f i))"
  then have "int (0 + nat (max_retries rs)) = max_retries rs" and "0 < nat (max_retries rs)"
    by auto
  from execute_from_all_fail [OF this, of env url s f] h
  obtain s' where "execute rs (fetch env url) s = (Inl (f (nat (max_retries rs) - 1)), s')"
    "gets s' = gets s + nat (max_retries rs)"
    "sleeps (trace s') =
       sleeps (trace s) @ map (\<lambda>i. base_delay rs * 2 ^ i) [0..<nat (max_retries rs) - 1]"
    unfolding execute_def by auto
  then show "fst (execute rs (fetch env url) s) = Inl (f (nat (max_retries rs) - 1))"
    "gets (snd (execute rs (fetch env url) s)) = gets s + nat (max_retries rs)"
    "sleeps (trace (snd (execute rs (fetch env url) s))) =
        sleeps (trace s) @ map (\<lambda>i. base_delay rs * 2 ^ i) [0..<nat (max_retries rs) - 1]"
    by simp_all
next
  show "max_retries (retry_strategy default_FeedFinder) = 3"
    by (simp add: default_FeedFinder_def FeedFinder_init_def RetryStrategy_init_def)
qed

theorem C4_execute_witness:
  "fst (execute (retry_strategy default_FeedFinder) (fetch flaky_env ''u'') init_st)
     = Inr (Some (rss_body, 200)) \<and>
   gets (snd (execute (retry_strategy default_FeedFinder) (fetch flaky_env ''u'') init_st)) = 3 \<and>
   sleeps (trace (snd (execute (retry_strategy default_FeedFinder) (fetch flaky_env ''u'') init_st)))
     = [1, 2] \<and>
   fst (execute (retry_strategy default_FeedFinder) (fetch down_env ''u'') init_st)
     = Inl (OtherError ''connection refused'') \<and>
   gets (snd (execute (retry_strategy default_FeedFinder) (fetch down_env ''u'') init_st)) = 3 \<and>
   sleeps (trace (snd (execute (retry_strategy default_FeedFinder) (fetch down_env ''u'') init_st)))
     = [1, 2]"
proof -
  let ?rs = "retry_strategy default_FeedFinder"
  have rs: "max_retries ?rs = 3" "base_delay ?rs = 1"
    by (simp_all add: default_FeedFinder_def FeedFinder_init_def RetryStrategy_init_def
        default_base_delay_def)
  have upt: "[0..<2] = [0, Suc 0]"
    by (simp add: numeral_2_eq_2)
  have a: "int 2 < max_retries ?rs \<and>
        (\<forall>i<2. http_get flaky_env ''u'' (gets init_st + i) = Inl ((\<lambda>i. OtherError ''timeout'') i)) \<and>
        http_get flaky_env ''u'' (gets init_st + 2) = Inr (rss_body, 200)"
    by (simp add: rs flaky_env_def init_st_def)
  have b: "1 \<le> max_retries ?rs \<and>
        (\<forall>i<nat (max_retries ?rs). http_get down_env ''u'' (gets init_st + i)
            = Inl ((\<lambda>i. OtherError ''connection refused'') i))"
    by (simp add: rs down_env_def)
  from a C4_execute [of ?rs flaky_env "''u''" init_st, THEN conjunct2, THEN conjunct1,
      rule_format, of 2 "\<lambda>i. OtherError ''timeout''" "(rss_body, 200)"]
  have 1: "fst (execute ?rs (fetch flaky_env ''u'') init_st) = Inr (Some (rss_body, 200)) \<and>
      gets (snd (execute ?rs (fetch flaky_env ''u'') init_st)) = gets init_st + 2 + 1 \<and>
      sleeps (trace (snd (execute ?rs (fetch flaky_env ''u'') init_st))) =
        sleeps (trace init_st) @ map (\<lambda>i. base_delay ?rs * 2 ^ i) [0..<2]"
    by blast
  from b C4_execute [of ?rs down_env "''u''" init_st, THEN conjunct2, THEN conjunct2,
      THEN conjunct1, rule_format, of "\<lambda>i. OtherError ''connection refused''"]
  have 2: "fst (execute ?rs (fetch down_env ''u'') init_st)
        = Inl ((\<lambda>i. OtherError ''connection refused'') (nat (max_retries ?rs) - 1)) \<and>
      gets (snd (execute ?rs (fetch down_env ''u'') init_st)) = gets init_st + nat (max_retries ?rs) \<and>
      sleeps (trace (snd (execute ?rs (fetch down_env ''u'') init_st))) =
        sleeps (trace init_st) @ map (\<lambda>i. base_delay ?rs * 2 ^ i) [0..<nat (max_retries ?rs) - 1]"
    by blast
  have 3: "nat (max_retries ?rs) - 1 = 2"
    by (simp add: rs)
  from 1 2 show ?thesis
    unfolding 3 by (simp add: rs init_st_def upt)
qed

section \<open>What one probe does\<close>

text \<open>
  Every call of \<^verbatim>\<open>_fetch_url\<close>, hence every call of \<^verbatim>\<open>_check_feed_url\<close>, adds exactly
  its URL to the list of fetch calls, whatever the rate limiter, the retries and the
  validation do; and a candidate that validates carries the URL that was probed.
\<close>

lemma acquire_fetch_calls:
  "fetch_calls (trace (snd (acquire rl env s))) = fetch_calls (trace s)"
  by (simp add: acquire_def emit_def time_time_def Let_def fetch_calls_append)

lemma execute_from_fetch_calls:
  "fetch_calls (trace (snd (execute_from rs (fetch env url) a m s))) = fetch_calls (trace s)"
proof (induction m arbitrary: a s)
  case 0
  then show ?case by simp
next
  case (Suc m)
  let ?s1 = "emit (Get url) (s\<lparr>gets := Suc (gets s)\<rparr>)"
  have fs: "fetch env url s = (http_get env url (gets s), ?s1)"
    by (simp add: fetch_def)
  show ?case
  proof (cases "http_get env url (gets s)")
    case (Inr v)
    then show ?thesis by (simp add: fs emit_def fetch_calls_append)
  next
    case (Inl e)
    let ?d = "base_delay rs * 2 ^ a"
    let ?s3 = "emit (Sleep ?d) (emit (Warning (a + 1) e ?d) ?s1)"
    have "fetch_calls (trace (snd (execute_from rs (fetch env url) (Suc a) m ?s3)))
            = fetch_calls (trace ?s3)"
      by (rule Suc.IH)
    then show ?thesis using Inl by (simp add: fs emit_def Let_def fetch_calls_append)
  qed
qed

lemma fetch_url_fetch_calls:
  "fetch_calls (trace (snd (fetch_url ff env url s))) = fetch_calls (trace s) @ [url]"
proof -
  let ?s0 = "emit (FetchCall url) s"
  have 0: "fetch_calls (trace ?s0) = fetch_calls (trace s) @ [url]"
    by (simp add: emit_def fetch_calls_append)
  obtain a s1 where acq: "acquire (rate_limiter ff) env ?s0 = (a, s1)"
    by (cases "acquire (rate_limiter ff) env ?s0")
  have 1: "fetch_calls (trace s1) = fetch_calls (trace ?s0)"
    using acquire_fetch_calls [of "rate_limiter ff" env ?s0] acq by simp
  obtain x s2 where ex: "execute (retry_strategy ff) (fetch env url) s1 = (x, s2)"
    by (cases "execute (retry_strategy ff) (fetch env url) s1")
  have 2: "fetch_calls (trace s2) = fetch_calls (trace s1)"
    using execute_from_fetch_calls
      [of "retry_strategy ff" env url 0 "nat (max_retries (retry_strategy ff))" s1] ex
    by (simp add: execute_def)
  show ?thesis
    using acq ex 0 1 2
    by (auto simp: fetch_url_def emit_def fetch_calls_append split: sum.splits)
qed

lemma check_feed_url_fetch_calls:
  "fetch_calls (trace (snd (check_feed_url ff env url s))) = fetch_calls (trace s) @ [url]"
  using fetch_url_fetch_calls [of ff env url s]
  by (auto simp: check_feed_url_def split: prod.splits sum.splits option.splits)



lemma check_paths_fetch_calls:
  "check_paths ff env url paths fs s = ((None, fs'), s1) \<Longrightarrow>
     \<exists>us. map (urljoin env url) paths = map Inr us \<and>
          fetch_calls (trace s1) = fetch_calls (trace s) @ us"
proof (induction paths arbitrary: fs s)
  case Nil
  then show ?case by simp
next
  case (Cons path paths)
  from Cons.prems obtain u where u: "urljoin env url path = Inr u"
    by (auto split: sum.splits)
  obtain x s0 where c: "check_feed_url ff env u s = (x, s0)"
    by (cases "check_feed_url ff env u s")
  have fc: "fetch_calls (trace s0) = fetch_calls (trace s) @ [u]"
    using check_feed_url_fetch_calls [of ff env u s] c by simp
  from Cons.prems u c obtain fs0 where "check_paths ff env url paths fs0 s0 = ((None, fs'), s1)"
    by (auto split: sum.splits option.splits)
  from Cons.IH [OF this] obtain us where "map (urljoin env url) paths = map Inr us"
    and "fetch_calls (trace s1) = fetch_calls (trace s0) @ us"
    by blast
  then have "map (urljoin env url) (path # paths) = map Inr (u # us) \<and>
          fetch_calls (trace s1) = fetch_calls (trace s) @ (u # us)"
    using u fc by simp
  then show ?case by blast
qed


section \<open>The two loops of the HTML scan against the scanner of the specification\<close>

text \<open>
  The source resolves a candidate and validates it at once; the specification scans first
  and validates afterwards.  When every \<^verbatim>\<open>href\<close> resolves, and resolves to a non-empty
  URL, both do the same: the source's guard drops an empty URL in the link pass only.
\<close>

lemma resolve_all_append_eq:
  "resolve_all env base (xs @ ys) =
     (case resolve_all env base xs of
        Inl e \<Rightarrow> Inl e
      | Inr as \<Rightarrow>
          (case resolve_all env base ys of
             Inl e \<Rightarrow> Inl e
           | Inr bs \<Rightarrow> Inr (as @ bs)))"
  by (induction xs) (auto split: sum.splits)

lemma resolve_all_append:
  "resolve_all env base (xs @ ys) = Inr cs \<longleftrightarrow>
     (\<exists>as bs. resolve_all env base xs = Inr as \<and> resolve_all env base ys = Inr bs \<and> cs = as @ bs)"
  unfolding resolve_all_append_eq by (auto split: sum.splits)

lemma validate_all_append:
  "validate_all ff env (us @ vs) s =
     (case validate_all ff env us s of
        (Inl e, s1) \<Rightarrow> (Inl e, s1)
      | (Inr found, s1) \<Rightarrow>
          (case validate_all ff env vs s1 of
             (Inl e, s2) \<Rightarrow> (Inl e, s2)
           | (Inr found', s2) \<Rightarrow> (Inr (found @ found'), s2)))"
  by (induction us arbitrary: s) (auto split: sum.splits prod.splits option.splits)

lemma validate_all_fetch_calls:
  "validate_all ff env us s = (Inr found, s1) \<Longrightarrow>
     fetch_calls (trace s1) = fetch_calls (trace s) @ us"
proof (induction us arbitrary: s found)
  case Nil
  then show ?case by simp
next
  case (Cons u us)
  obtain x s0 where c: "check_feed_url ff env u s = (x, s0)"
    by (cases "check_feed_url ff env u s")
  have fc: "fetch_calls (trace s0) = fetch_calls (trace s) @ [u]"
    using check_feed_url_fetch_calls [of ff env u s] c by simp
  from Cons.prems c obtain found0 where "validate_all ff env us s0 = (Inr found0, s1)"
    by (auto split: sum.splits prod.splits)
  from Cons.IH [OF this] fc show ?case by simp
qed

lemma check_link_tags_refines:
  assumes "resolve_all env url
             (map href_of (filter (\<lambda>el. el_get el ''type'' \<in> Some ` set feed_mime_types) links))
           = Inr cs"
    and "[] \<notin> set cs"
  shows "check_link_tags ff env url links fs s =
           (case validate_all ff env cs s of
              (Inl e, s1) \<Rightarrow> (Inl e, s1)
            | (Inr found, s1) \<Rightarrow> (Inr (fs @ found), s1))"
  using assms
proof (induction links arbitrary: fs s cs)
  case Nil
  then show ?case by auto
next
  case (Cons link links)
  show ?case
  proof (cases "el_get link ''type'' \<in> Some ` set feed_mime_types")
    case False
    then show ?thesis using Cons by simp
  next
    case True
    with Cons.prems(1) obtain u us where u0: "urljoin env url (href_of link) = Inr u"
      and us: "resolve_all env url
             (map href_of (filter (\<lambda>el. el_get el ''type'' \<in> Some ` set feed_mime_types) links))
           = Inr us" and cs: "cs = u # us"
      by (auto split: sum.splits)
    have u: "urljoin env url (el_get_default link ''href'' '''') = Inr u"
      using u0 by (simp add: href_of_def)
    have ne: "u \<noteq> []" and ne': "[] \<notin> set us"
      using Cons.prems(2) cs by auto
    note IH = Cons.IH [OF us ne']
    obtain x s0 where c: "check_feed_url ff env u s = (x, s0)"
      by (cases "check_feed_url ff env u s")
    show ?thesis
    proof (cases x)
      case (Inl e)
      then show ?thesis using True u ne c cs by simp
    next
      case (Inr r)
      then show ?thesis using True u ne c cs IH
        by (cases r) (auto split: sum.splits prod.splits)
    qed
  qed
qed

lemma check_a_tags_refines:
  assumes "resolve_all env url
             (map href_of
               (filter (\<lambda>el. list_ex (\<lambda>word. contains (lower (text_of el)) word) feed_words) links))
           = Inr cs"
  shows "check_a_tags ff env url links fs s =
           (case validate_all ff env cs s of
              (Inl e, s1) \<Rightarrow> (Inl e, s1)
            | (Inr found, s1) \<Rightarrow> (Inr (fs @ found), s1))"
  using assms
proof (induction links arbitrary: fs s cs)
  case Nil
  then show ?case by auto
next
  case (Cons link links)
  show ?case
  proof (cases "list_ex (\<lambda>word. contains (lower (text_of link)) word) feed_words")
    case False
    then show ?thesis using Cons by (simp add: Let_def)
  next
    case True
    with Cons.prems(1) obtain u us where u0: "urljoin env url (href_of link) = Inr u"
      and us: "resolve_all env url
             (map href_of
               (filter (\<lambda>el. list_ex (\<lambda>word. contains (lower (text_of el)) word) feed_words) links))
           = Inr us" and cs: "cs = u # us"
      by (auto split: sum.splits)
    have u: "urljoin env url (el_get_default link ''href'' '''') = Inr u"
      using u0 by (simp add: href_of_def)
    note IH = Cons.IH [OF us]
    obtain x s0 where c: "check_feed_url ff env u s = (x, s0)"
      by (cases "check_feed_url ff env u s")
    show ?thesis
    proof (cases x)
      case (Inl e)
      then show ?thesis using True u c cs by (simp add: Let_def)
    next
      case (Inr r)
      then show ?thesis using True u c cs IH
        by (cases r) (auto simp: Let_def split: sum.splits prod.splits)
    qed
  qed
qed

lemma filter_find_all_link:
  "filter (\<lambda>el. el_get el ''type'' \<in> Some ` set feed_mime_types) (find_all ''link'' soup)
     = filter is_feed_link soup"
  by (auto simp add: find_all_def is_feed_link_def intro!: filter_cong)

lemma filter_find_all_a:
  "filter (\<lambda>el. list_ex (\<lambda>word. contains (lower (text_of el)) word) feed_words)
       (find_all_href ''a'' soup)
     = filter is_feed_anchor soup"
  by (auto simp add: find_all_href_def is_feed_anchor_def intro!: filter_cong)

lemma find_feeds_in_html_refines:
  assumes "BeautifulSoup env content = Inr soup"
    and "scan env url soup = Inr cands"
    and "[] \<notin> set cands"
  shows "find_feeds_in_html ff env url content s = validate_all ff env cands s"
proof -
  from assms(2) obtain as bs where
    a: "resolve_all env url (map href_of (filter is_feed_link soup)) = Inr as" and
    b: "resolve_all env url (map href_of (filter is_feed_anchor soup)) = Inr bs" and
    c: "cands = as @ bs"
    unfolding scan_def resolve_all_append by blast
  have ne: "[] \<notin> set as" using assms(3) c by simp
  have l: "check_link_tags ff env url (find_all ''link'' soup) [] s =
           (case validate_all ff env as s of
              (Inl e, s1) \<Rightarrow> (Inl e, s1)
            | (Inr found, s1) \<Rightarrow> (Inr ([] @ found), s1))"
    by (rule check_link_tags_refines) (simp_all add: filter_find_all_link a ne)
  have r: "\<And>fs s1. check_a_tags ff env url (find_all_href ''a'' soup) fs s1 =
           (case validate_all ff env bs s1 of
              (Inl e, s2) \<Rightarrow> (Inl e, s2)
            | (Inr found, s2) \<Rightarrow> (Inr (fs @ found), s2))"
    by (rule check_a_tags_refines) (simp add: filter_find_all_a b)
  show ?thesis
    unfolding find_feeds_in_html_def c validate_all_append
    by (simp add: assms(1) l r split: prod.splits sum.splits)
qed

section \<open>Probes whose outcome does not depend on the state\<close>

text \<open>
  With a non-zero rate and at least one attempt, a URL that the server always answers is
  fetched at the first attempt, whatever the state; then a loop over such URLs collects
  their outcomes in order.
\<close>

lemma acquire_ok: "rate rl \<noteq> 0 \<Longrightarrow> fst (acquire rl env s) = Inr ()"
  by (simp add: acquire_def Let_def split_def)

lemma acquire_raises: "rate rl = 0 \<Longrightarrow> \<exists>m. fst (acquire rl env s) = Inl (ZeroDivisionError m)"
  by (simp add: acquire_def Let_def split_def)

lemma fetch_url_answered:
  assumes "rate (rate_limiter ff) \<noteq> 0" and "1 \<le> max_retries (retry_strategy ff)"
    and "\<forall>k. http_get env u k = Inr v"
  shows "fst (fetch_url ff env u s) = Inr (Some v)"
proof -
  let ?s0 = "emit (FetchCall u) s"
  obtain s1 where a: "acquire (rate_limiter ff) env ?s0 = (Inr (), s1)"
    using acquire_ok [OF assms(1), of env ?s0]
    by (cases "acquire (rate_limiter ff) env ?s0") auto
  have 1: "int (0 + nat (max_retries (retry_strategy ff))) = max_retries (retry_strategy ff)"
    and 2: "0 < nat (max_retries (retry_strategy ff))"
    using assms(2) by auto
  have 3: "\<forall>i<0. http_get env u (gets s1 + i) = Inl (undefined i)" by simp
  have 4: "http_get env u (gets s1 + 0) = Inr v" using assms(3) by simp
  from execute_from_success [OF 1 2 3 4]
  obtain s2 where "execute (retry_strategy ff) (fetch env u) s1 = (Inr (Some v), s2)"
    unfolding execute_def by blast
  then show ?thesis using a by (simp add: fetch_url_def)
qed

lemma check_feed_url_answered:
  assumes "rate (rate_limiter ff) \<noteq> 0" and "1 \<le> max_retries (retry_strategy ff)"
    and "\<forall>k. http_get env u k = Inr (content, code)"
  shows "fst (check_feed_url ff env u s) = validate env u content code"
proof -
  obtain x s1 where f: "fetch_url ff env u s = (x, s1)"
    by (cases "fetch_url ff env u s")
  then have "x = Inr (Some (content, code))"
    using fetch_url_answered [OF assms, of s] by simp
  then show ?thesis using f by (simp add: check_feed_url_def)
qed

lemma check_paths_outcomes:
  assumes "\<forall>p \<in> set paths. \<exists>u. urljoin env url p = Inr u \<and>
             (\<forall>t. fst (check_feed_url ff env u t) = Inr (g p))"
  shows "fst (check_paths ff env url paths fs s) = (None, fs @ List.map_filter g paths)"
  using assms
proof (induction paths arbitrary: fs s)
  case Nil
  then show ?case by (simp add: List.map_filter_simps)
next
  case (Cons p paths)
  then obtain u where u: "urljoin env url p = Inr u"
    and c: "\<forall>t. fst (check_feed_url ff env u t) = Inr (g p)"
    by auto
  obtain x s0 where cs: "check_feed_url ff env u s = (x, s0)"
    by (cases "check_feed_url ff env u s")
  then have x: "x = Inr (g p)" using c [rule_format, of s] by simp
  have rest: "\<forall>p \<in> set paths. \<exists>u. urljoin env url p = Inr u \<and>
             (\<forall>t. fst (check_feed_url ff env u t) = Inr (g p))"
    using Cons.prems by simp
  show ?case
  proof (cases "g p")
    case None
    then show ?thesis using u cs x Cons.IH [OF rest]
      by (simp add: List.map_filter_simps)
  next
    case (Some fi)
    then show ?thesis using u cs x Cons.IH [OF rest]
      by (simp add: List.map_filter_simps)
  qed
qed

lemma validate_all_outcomes:
  assumes "\<forall>u \<in> set us. \<forall>t. fst (check_feed_url ff env u t) = Inr (g u)"
  shows "fst (validate_all ff env us s) = Inr (List.map_filter g us)"
  using assms
proof (induction us arbitrary: s)
  case Nil
  then show ?case by (simp add: List.map_filter_simps)
next
  case (Cons u us)
  obtain x s0 where cs: "check_feed_url ff env u s = (x, s0)"
    by (cases "check_feed_url ff env u s")
  then have x: "x = Inr (g u)" using Cons.prems by (metis fst_conv list.set_intros(1))
  have "fst (validate_all ff env us s0) = Inr (List.map_filter g us)"
    using Cons.IH Cons.prems by simp
  then obtain s1 where v: "validate_all ff env us s0 = (Inr (List.map_filter g us), s1)"
    by (cases "validate_all ff env us s0") auto
  show ?case using cs x v
    by (cases "g u") (simp_all add: List.map_filter_simps)
qed


lemma check_paths_Cons_none:
  assumes "urljoin env url p = Inr u" and "fst (check_feed_url ff env u s) = Inr None"
  shows "check_paths ff env url (p # ps) fs s =
           check_paths ff env url ps fs (snd (check_feed_url ff env u s))"
  using assms by (cases "check_feed_url ff env u s") simp


section \<open>The HTML fallback\<close>

text \<open>
  The loops of the scan only add fetch calls, and the fallback starts by fetching the URL of
  the site.
\<close>

lemma check_link_tags_grows:
  "check_link_tags ff env url links fs s = (x, s') \<Longrightarrow>
     \<exists>rest. fetch_calls (trace s') = fetch_calls (trace s) @ rest"
proof (induction links arbitrary: fs s)
  case Nil
  then show ?case by simp
next
  case (Cons link links)
  show ?case
  proof (cases "el_get link ''type'' \<in> Some ` set feed_mime_types")
    case False
    then show ?thesis using Cons by simp
  next
    case True
    show ?thesis
    proof (cases "urljoin env url (el_get_default link ''href'' '''')")
      case (Inl e)
      then show ?thesis using Cons.prems True by simp
    next
      case (Inr u)
      show ?thesis
      proof (cases "u = []")
        case True
        then show ?thesis using Cons \<open>el_get link ''type'' \<in> Some ` set feed_mime_types\<close> Inr
          by simp
      next
        case False
        obtain y s0 where c: "check_feed_url ff env u s = (y, s0)"
          by (cases "check_feed_url ff env u s")
        have fc: "fetch_calls (trace s0) = fetch_calls (trace s) @ [u]"
          using check_feed_url_fetch_calls [of ff env u s] c by simp
        show ?thesis
        proof (cases y)
          case (Inl e)
          then show ?thesis using Cons.prems True Inr False c fc by auto
        next
          case r: (Inr fo)
          then obtain fs0 where "check_link_tags ff env url links fs0 s0 = (x, s')"
            using Cons.prems True Inr False c by (cases fo) auto
          from Cons.IH [OF this] fc show ?thesis by auto
        qed
      qed
    qed
  qed
qed

lemma check_a_tags_grows:
  "check_a_tags ff env url links fs s = (x, s') \<Longrightarrow>
     \<exists>rest. fetch_calls (trace s') = fetch_calls (trace s) @ rest"
proof (induction links arbitrary: fs s)
  case Nil
  then show ?case by simp
next
  case (Cons link links)
  show ?case
  proof (cases "list_ex (\<lambda>word. contains (lower (text_of link)) word) feed_words")
    case False
    then show ?thesis using Cons by (simp add: Let_def)
  next
    case True
    show ?thesis
    proof (cases "urljoin env url (el_get_default link ''href'' '''')")
      case (Inl e)
      then show ?thesis using Cons.prems True by (simp add: Let_def)
    next
      case (Inr u)
      obtain y s0 where c: "check_feed_url ff env u s = (y, s0)"
        by (cases "check_feed_url ff env u s")
      have fc: "fetch_calls (trace s0) = fetch_calls (trace s) @ [u]"
        using check_feed_url_fetch_calls [of ff env u s] c by simp
      show ?thesis
      proof (cases y)
        case (Inl e)
        then show ?thesis using Cons.prems True Inr c fc by (auto simp: Let_def)
      next
        case r: (Inr fo)
        then obtain fs0 where "check_a_tags ff env url links fs0 s0 = (x, s')"
          using Cons.prems True Inr c by (cases fo) (auto simp: Let_def)
        from Cons.IH [OF this] fc show ?thesis by auto
      qed
    qed
  qed
qed

lemma find_feeds_in_html_grows:
  assumes "find_feeds_in_html ff env url content s = (x, s')"
  shows "\<exists>rest. fetch_calls (trace s') = fetch_calls (trace s) @ rest"
proof (cases "BeautifulSoup env content")
  case (Inl e)
  then show ?thesis using assms by (simp add: find_feeds_in_html_def)
next
  case (Inr soup)
  obtain y s0 where l: "check_link_tags ff env url (find_all ''link'' soup) [] s = (y, s0)"
    by (cases "check_link_tags ff env url (find_all ''link'' soup) [] s")
  from check_link_tags_grows [OF l] obtain r0 where
    r0: "fetch_calls (trace s0) = fetch_calls (trace s) @ r0" by blast
  show ?thesis
  proof (cases y)
    case (Inl e)
    then show ?thesis using assms Inr l r0 by (auto simp: find_feeds_in_html_def)
  next
    case r: (Inr fs0)
    then have "check_a_tags ff env url (find_all_href ''a'' soup) fs0 s0 = (x, s')"
      using assms Inr l by (simp add: find_feeds_in_html_def)
    from check_a_tags_grows [OF this] r0 show ?thesis by auto
  qed
qed

text \<open>What the HTML fallback does with the result it is given.\<close>

lemma check_html_cases:
  assumes "check_html ff env url result s = (r, s')"
  obtains (fetch_raises) e where "fetch_url ff env url s = (Inl e, s')" "r = failed result e"
  | (fetch_none) "fetch_url ff env url s = (Inr None, s')" "r = failed result unpack_error"
  | (not_scanned) content code where "fetch_url ff env url s = (Inr (Some (content, code)), s')"
      "\<not> (code = 200 \<and> content \<noteq> [])" "r = result"
  | (scan_raises) content s1 e where "fetch_url ff env url s = (Inr (Some (content, 200)), s1)"
      "content \<noteq> []" "find_feeds_in_html ff env url content s1 = (Inl e, s')"
      "r = failed result e"
  | (scanned) content s1 html_feeds where
      "fetch_url ff env url s = (Inr (Some (content, 200)), s1)"
      "content \<noteq> []" "find_feeds_in_html ff env url content s1 = (Inr html_feeds, s')"
      "r = result\<lparr>feeds := feeds result @ html_feeds\<rparr>"
proof -
  obtain x s1 where f: "fetch_url ff env url s = (x, s1)"
    by (cases "fetch_url ff env url s")
  show thesis
  proof (cases x)
    case (Inl e)
    then show ?thesis using assms f fetch_raises by (simp add: check_html_def)
  next
    case (Inr o1)
    show ?thesis
    proof (cases o1)
      case None
      then show ?thesis using assms f Inr fetch_none by (simp add: check_html_def)
    next
      case (Some cc)
      obtain content code where cc: "cc = (content, code)" by (cases cc)
      show ?thesis
      proof (cases "code = 200 \<and> content \<noteq> []")
        case False
        then show ?thesis using assms f Inr Some cc not_scanned [of content code]
          by (auto simp: check_html_def)
      next
        case True
        obtain y s2 where h: "find_feeds_in_html ff env url content s1 = (y, s2)"
          by (cases "find_feeds_in_html ff env url content s1")
        show ?thesis
        proof (cases y)
          case (Inl e)
          then show ?thesis using assms f Inr Some cc True h scan_raises [of content s1 e]
            by (auto simp: check_html_def)
        next
          case r: (Inr html_feeds)
          then show ?thesis using assms f Inr Some cc True h scanned [of content s1 html_feeds]
            by (auto simp: check_html_def)
        qed
      qed
    qed
  qed
qed

lemma check_html_grows:
  assumes "check_html ff env url result s = (r, s')"
  shows "\<exists>rest. fetch_calls (trace s') = fetch_calls (trace s) @ url # rest"
  using assms
proof (cases rule: check_html_cases)
  case (fetch_raises e)
  then show ?thesis using fetch_url_fetch_calls [of ff env url s] by simp
next
  case fetch_none
  then show ?thesis using fetch_url_fetch_calls [of ff env url s] by simp
next
  case (not_scanned content code)
  then show ?thesis using fetch_url_fetch_calls [of ff env url s] by simp
next
  case (scan_raises content s1 e)
  then show ?thesis
    using fetch_url_fetch_calls [of ff env url s] find_feeds_in_html_grows [of ff env url content s1]
    by auto
next
  case (scanned content s1 html_feeds)
  then show ?thesis
    using fetch_url_fetch_calls [of ff env url s] find_feeds_in_html_grows [of ff env url content s1]
    by auto
qed


section \<open>The example sites\<close>

text \<open>What a default session gets from the example sites, whatever the state.\<close>

lemma default_FeedFinder_simps:
  "rate (rate_limiter default_FeedFinder) = 2"
  "max_retries (retry_strategy default_FeedFinder) = 3"
  "base_delay (retry_strategy default_FeedFinder) = 1"
  "timeout default_FeedFinder = 10"
  "max_redirects default_FeedFinder = 5"
  by (simp_all add: default_FeedFinder_def FeedFinder_init_def RateLimiter_init_def
      RetryStrategy_init_def default_base_delay_def)

lemma clean_blog_example: "clean_url ''blog.example/'' = ''https://blog.example''"
  by (simp add: clean_url_def rstrip_def)

lemma site_env_simps:
  "http_get (site_env pages soup) u k =
     (case map_of pages u of Some body \<Rightarrow> Inr (body, 200) | None \<Rightarrow> Inr (''not found'', 404))"
  "feedparser_parse (site_env pages soup) = demo_parse"
  "BeautifulSoup (site_env pages soup) c = Inr soup"
  "urljoin (site_env pages soup) base ref = Inr (base @ ref)"
  "ClientSession (site_env pages soup) t r = None"
  by (simp_all add: site_env_def concat_urljoin_def urljoin_def)

lemma site_probe:
  "fst (check_feed_url default_FeedFinder (site_env pages soup) u t) =
     (case map_of pages u of
        Some body \<Rightarrow> validate (site_env pages soup) u body 200
      | None \<Rightarrow> Inr None)"
proof (cases "map_of pages u")
  case None
  then have "\<forall>k. http_get (site_env pages soup) u k = Inr (''not found'', 404)"
    by (simp add: site_env_simps)
  from check_feed_url_answered [OF _ _ this, of default_FeedFinder t]
  show ?thesis using None by (simp add: default_FeedFinder_simps validate_def)
next
  case (Some body)
  then have "\<forall>k. http_get (site_env pages soup) u k = Inr (body, 200)"
    by (simp add: site_env_simps)
  from check_feed_url_answered [OF _ _ this, of default_FeedFinder t]
  show ?thesis using Some by (simp add: default_FeedFinder_simps)
qed

lemma site_fetch:
  "fst (fetch_url default_FeedFinder (site_env pages soup) u t) =
     Inr (Some (case map_of pages u of Some body \<Rightarrow> (body, 200) | None \<Rightarrow> (''not found'', 404)))"
proof -
  have "\<forall>k. http_get (site_env pages soup) u k =
     Inr (case map_of pages u of Some body \<Rightarrow> (body, 200) | None \<Rightarrow> (''not found'', 404))"
    by (simp add: site_env_simps split: option.splits)
  from fetch_url_answered [OF _ _ this, of default_FeedFinder t]
  show ?thesis by (simp add: default_FeedFinder_simps)
qed

lemma rss_body_not_atom: "\<not> contains (lower rss_body) ''atom''"
  unfolding rss_body_def by code_simp

lemma atom_body_atom: "contains (lower atom_body) ''atom''"
  unfolding atom_body_def by code_simp

lemma bodies_distinct: "rss_body \<noteq> atom_body" "rss_body \<noteq> ''boom''" "atom_body \<noteq> ''boom''"
  "rss_body \<noteq> []" "atom_body \<noteq> []"
  by (simp_all add: rss_body_def atom_body_def)

lemma validate_rss:
  "validate (site_env pages soup) u rss_body 200 =
     Inr (Some \<lparr>feed_url = u, ftype = RSS, title = ''News''\<rparr>)"
  by (simp add: validate_def site_env_simps demo_parse_def bodies_distinct rss_body_not_atom
      get_bozo_def get_feed_def dict_get_def)

lemma validate_atom:
  "validate (site_env pages soup) u atom_body 200 =
     Inr (Some \<lparr>feed_url = u, ftype = ATOM, title = ''Notes''\<rparr>)"
  using bodies_distinct(1) [symmetric]
  by (simp add: validate_def site_env_simps demo_parse_def bodies_distinct atom_body_atom
      get_bozo_def get_feed_def dict_get_def)


lemma two_feeds_probes:
  "\<forall>p \<in> set COMMON_PATHS. \<exists>u. urljoin two_feeds_env ''https://blog.example'' p = Inr u \<and>
     (\<forall>t. fst (check_feed_url default_FeedFinder two_feeds_env u t) =
            Inr (if p = ''/feed'' then Some feed_at_feed
                 else if p = ''/rss.xml'' then Some feed_at_rss_xml else None))"
  unfolding two_feeds_env_def
  by (simp add: COMMON_PATHS_def site_env_simps site_probe validate_rss validate_atom
      feed_at_feed_def feed_at_rss_xml_def)

lemma linked_probes:
  "\<forall>p \<in> set COMMON_PATHS. \<exists>u. urljoin linked_env ''https://blog.example'' p = Inr u \<and>
     (\<forall>t. fst (check_feed_url default_FeedFinder linked_env u t) = Inr ((\<lambda>p. None) p))"
  unfolding linked_env_def
  by (simp add: COMMON_PATHS_def site_env_simps site_probe)


lemma news_scan:
  "scan linked_env ''https://blog.example'' [news_link, news_anchor] =
     Inr [''https://blog.example/news.xml'', ''https://blog.example/news.xml'']"
  by code_simp

lemma news_probe:
  "fst (check_feed_url default_FeedFinder linked_env ''https://blog.example/news.xml'' t) =
     Inr (Some feed_at_news)"
  unfolding linked_env_def
  by (simp add: site_probe validate_rss feed_at_news_def)

lemma linked_home:
  "fst (fetch_url default_FeedFinder linked_env ''https://blog.example'' t) =
     Inr (Some (''<html>home</html>'', 200))"
  unfolding linked_env_def
  by (simp add: site_fetch)

lemma known_path_feeds:
  "List.map_filter
     (\<lambda>p. if p = ''/feed'' then Some feed_at_feed
          else if p = ''/rss.xml'' then Some feed_at_rss_xml else None) COMMON_PATHS
   = [feed_at_feed, feed_at_rss_xml]"
  by (simp add: COMMON_PATHS_def List.map_filter_simps)

lemma two_feeds_known_paths:
  "fst (check_paths default_FeedFinder two_feeds_env ''https://blog.example'' COMMON_PATHS [] s)
     = (None, [feed_at_feed, feed_at_rss_xml])"
  using check_paths_outcomes [OF two_feeds_probes, of "[]" s] known_path_feeds by simp

lemma linked_known_paths:
  "fst (check_paths default_FeedFinder linked_env ''https://blog.example'' COMMON_PATHS [] s)
     = (None, [])"
  using check_paths_outcomes [OF linked_probes, of "[]" s]
  by (simp add: List.map_filter_def)



section \<open>The probes of a run\<close>

text \<open>
  A loop over the known paths that ends without an exception has probed every path, and
  has appended the positive outcomes in order.  A discovery whose result has status
  SUCCESS has been through such a loop.
\<close>

lemma check_paths_probes:
  "check_paths ff env url paths fs s = ((None, fs'), s1) \<Longrightarrow>
     map fst (probes ff env url paths s) = paths \<and>
     fs' = fs @ List.map_filter snd (probes ff env url paths s)"
proof (induction paths arbitrary: fs s)
  case Nil
  then show ?case by simp
next
  case (Cons path paths)
  from Cons.prems obtain u where u: "urljoin env url path = Inr u"
    by (auto split: sum.splits)
  obtain x s0 where c: "check_feed_url ff env u s = (x, s0)"
    by (cases "check_feed_url ff env u s")
  from Cons.prems u c obtain fo where x: "x = Inr fo"
    by (cases x) auto
  show ?case
  proof (cases fo)
    case None
    then have "check_paths ff env url paths fs s0 = ((None, fs'), s1)"
      using Cons.prems u c x by simp
    from Cons.IH [OF this] show ?thesis
      using u c x None by simp
  next
    case (Some fi)
    then have "check_paths ff env url paths (fs @ [fi]) s0 = ((None, fs'), s1)"
      using Cons.prems u c x by simp
    from Cons.IH [OF this] show ?thesis
      using u c x Some by simp
  qed
qed

lemma probes_outcomes:
  assumes "\<forall>p \<in> set paths. \<exists>u. urljoin env url p = Inr u \<and>
             (\<forall>t. fst (check_feed_url ff env u t) = Inr (g p))"
  shows "probes ff env url paths s = map (\<lambda>p. (p, g p)) paths"
  using assms
proof (induction paths arbitrary: s)
  case Nil
  then show ?case by simp
next
  case (Cons p paths)
  then obtain u where u: "urljoin env url p = Inr u"
    and c: "\<forall>t. fst (check_feed_url ff env u t) = Inr (g p)"
    by auto
  obtain x s0 where cs: "check_feed_url ff env u s = (x, s0)"
    by (cases "check_feed_url ff env u s")
  then have x: "x = Inr (g p)" using c [rule_format, of s] by simp
  have rest: "\<forall>p \<in> set paths. \<exists>u. urljoin env url p = Inr u \<and>
             (\<forall>t. fst (check_feed_url ff env u t) = Inr (g p))"
    using Cons.prems by simp
  show ?case
    using u cs x Cons.IH [OF rest] by simp
qed

lemma map_filter_snd: "List.map_filter snd ps = List.map_filter id (map snd ps)"
  by (induction ps) (simp_all split: option.splits)

lemma discover_feeds_success:
  assumes "discover_feeds ff env raw s = (r, s')" and "status r = SUCCESS"
  shows "\<exists>fs s1. check_paths ff env (clean_url raw) COMMON_PATHS [] s = ((None, fs), s1) \<and>
    (fs \<noteq> [] \<longrightarrow> feeds r = fs \<and> s' = s1) \<and>
    (fs = [] \<longrightarrow>
           check_html ff env (clean_url raw)
             \<lparr>site_url = clean_url raw, feeds = [], status = SUCCESS, error = None\<rparr> s1 = (r, s'))"
proof -
  obtain eo fs s1 where cp: "check_paths ff env (clean_url raw) COMMON_PATHS [] s = ((eo, fs), s1)"
    by (cases "check_paths ff env (clean_url raw) COMMON_PATHS [] s") auto
  have "eo = None"
    using assms cp
    by (cases eo) (auto simp: discover_feeds_def Let_def failed_def split: option.splits)
  moreover have "ClientSession env (timeout ff) (max_redirects ff) = None"
    using assms by (auto simp: discover_feeds_def Let_def failed_def split: option.splits)
  ultimately show ?thesis
    using assms(1) cp
    by (auto simp: discover_feeds_def Let_def split: if_splits)
qed

lemma two_feeds_discover:
  "fst (discover_feeds default_FeedFinder two_feeds_env ''blog.example/'' s) =
     \<lparr>site_url = ''https://blog.example'', feeds = [feed_at_feed, feed_at_rss_xml],
      status = SUCCESS, error = None\<rparr>"
proof -
  let ?cp = "check_paths default_FeedFinder two_feeds_env ''https://blog.example'' COMMON_PATHS [] s"
  have cp: "?cp = ((None, [feed_at_feed, feed_at_rss_xml]), snd ?cp)"
    using two_feeds_known_paths [of s] by (simp add: prod_eq_iff)
  have s: "ClientSession two_feeds_env (timeout default_FeedFinder)
             (max_redirects default_FeedFinder) = None"
    by (simp add: two_feeds_env_def site_env_simps)
  show ?thesis
    unfolding discover_feeds_def Let_def clean_blog_example s
    by (subst cp) simp
qed


lemma discover_feeds_after_hit:
  assumes "check_paths ff env (clean_url raw) COMMON_PATHS [] s = ((eo, fs), s1)"
    and "ClientSession env (timeout ff) (max_redirects ff) = None"
    and "fs \<noteq> [] \<or> eo \<noteq> None"
  shows "discover_feeds ff env raw s =
           (\<lparr>site_url = clean_url raw, feeds = fs,
             status = (if eo = None then SUCCESS else ERROR), error = map_option str eo\<rparr>, s1)"
  using assms by (cases eo) (auto simp: discover_feeds_def Let_def failed_def)

section \<open>The session configuration\<close>

text \<open>
  Claim C8, as stated: the base delay of the retry backoff is an option of the public
  constructor.  It is not: whatever the four arguments of \<^verbatim>\<open>FeedFinder.__init__\<close> are,
  the retry strategy of the session has base delay 1.
\<close>

theorem C8_base_delay_not_an_option:
  "\<not> (\<exists>t r m q. base_delay (retry_strategy (FeedFinder_init t r m q)) \<noteq> 1)"
  by (simp add: FeedFinder_init_def RetryStrategy_init_def default_base_delay_def)

lemma acquire_gets: "gets (snd (acquire rl env s)) = gets s"
  by (simp add: acquire_def emit_def time_time_def Let_def)

lemma fetch_url_gets:
  "gets (snd (fetch_url ff env url s)) \<le> gets s + nat (max_retries (retry_strategy ff))"
proof -
  let ?s0 = "emit (FetchCall url) s"
  obtain a s1 where acq: "acquire (rate_limiter ff) env ?s0 = (a, s1)"
    by (cases "acquire (rate_limiter ff) env ?s0")
  have 1: "gets s1 = gets s"
    using acquire_gets [of "rate_limiter ff" env ?s0] acq by (simp add: emit_def)
  obtain x s2 where ex: "execute (retry_strategy ff) (fetch env url) s1 = (x, s2)"
    by (cases "execute (retry_strategy ff) (fetch env url) s1")
  have 2: "gets s2 \<le> gets s1 + nat (max_retries (retry_strategy ff))"
    using execute_from_gets
      [of "retry_strategy ff" env url 0 "nat (max_retries (retry_strategy ff))" s1] ex
    by (simp add: execute_def)
  show ?thesis
    using acq ex 1 2 by (auto simp: fetch_url_def emit_def split: sum.splits)
qed

text \<open>
  Claim C8, amended: the session has four options, with defaults 10, 5, 3 and 2, and each
  reaches the component it configures.  The timeout \<open>t\<close> and the redirect limit \<open>r\<close> are
  what the session of every discovery is set up with.  The number of attempts \<open>m\<close> is that
  of the retry strategy every fetch runs its GET under, so a fetch makes at most \<open>m\<close> GETs.
  The request rate \<open>q\<close> is that of the rate limiter every fetch waits for first: it raises
  when \<open>q\<close> is 0 and otherwise sleeps what is missing to \<open>1 / q\<close> since the last request.
  The base delay of the retry strategy is not among the options: it is always the default 1
  of \<^verbatim>\<open>RetryStrategy\<close>.
\<close>

theorem C8_four_options:
  "discover_feeds (FeedFinder_init t r m q) env raw s =
     (case ClientSession env t r of
        Some e \<Rightarrow>
          (\<lparr>site_url = clean_url raw, feeds = [], status = ERROR, error = Some (str e)\<rparr>, s)
      | None \<Rightarrow>
          (case check_paths (FeedFinder_init t r m q) env (clean_url raw) COMMON_PATHS [] s of
             ((Some e, fs), s1) \<Rightarrow>
               (\<lparr>site_url = clean_url raw, feeds = fs, status = ERROR,
                 error = Some (str e)\<rparr>, s1)
           | ((None, fs), s1) \<Rightarrow>
               if fs = []
               then check_html (FeedFinder_init t r m q) env (clean_url raw)
                      \<lparr>site_url = clean_url raw, feeds = [], status = SUCCESS, error = None\<rparr> s1
               else (\<lparr>site_url = clean_url raw, feeds = fs, status = SUCCESS,
                      error = None\<rparr>, s1))) \<and>
   fetch_url (FeedFinder_init t r m q) env url s =
     (case acquire \<lparr>rate = q\<rparr> env (emit (FetchCall url) s) of
        (Inl e, s1) \<Rightarrow> (Inl e, s1)
      | (Inr u, s1) \<Rightarrow>
          (case execute \<lparr>max_retries = m, base_delay = 1\<rparr> (fetch env url) s1 of
             (Inr x, s2) \<Rightarrow> (Inr x, s2)
           | (Inl e, s2) \<Rightarrow> (Inr (Some ('''', 0)), emit (LogError url e) s2))) \<and>
   gets (snd (fetch_url (FeedFinder_init t r m q) env url s)) \<le> gets s + nat m \<and>
   fst (acquire \<lparr>rate = q\<rparr> env s) =
     (if q = 0 then Inl (ZeroDivisionError ''division by zero'') else Inr ()) \<and>
   sleeps (trace (snd (acquire \<lparr>rate = q\<rparr> env s))) =
     sleeps (trace s) @
     (if q = 0 then []
      else if 0 < 1 / q - (clock env (ticks s) - last_request s)
      then [1 / q - (clock env (ticks s) - last_request s)] else []) \<and>
   base_delay (retry_strategy (FeedFinder_init t r m q)) = default_base_delay \<and>
   default_base_delay = 1 \<and>
   default_FeedFinder = FeedFinder_init 10 5 3 2"
proof (intro conjI)
  show "discover_feeds (FeedFinder_init t r m q) env raw s =
     (case ClientSession env t r of
        Some e \<Rightarrow>
          (\<lparr>site_url = clean_url raw, feeds = [], status = ERROR, error = Some (str e)\<rparr>, s)
      | None \<Rightarrow>
          (case check_paths (FeedFinder_init t r m q) env (clean_url raw) COMMON_PATHS [] s of
             ((Some e, fs), s1) \<Rightarrow>
               (\<lparr>site_url = clean_url raw, feeds = fs, status = ERROR,
                 error = Some (str e)\<rparr>, s1)
           | ((None, fs), s1) \<Rightarrow>
               if fs = []
               then check_html (FeedFinder_init t r m q) env (clean_url raw)
                      \<lparr>site_url = clean_url raw, feeds = [], status = SUCCESS, error = None\<rparr> s1
               else (\<lparr>site_url = clean_url raw, feeds = fs, status = SUCCESS,
                      error = None\<rparr>, s1)))"
  proof -
    have t: "timeout (FeedFinder_init t r m q) = t"
      and r: "max_redirects (FeedFinder_init t r m q) = r"
      by (simp_all add: FeedFinder_init_def)
    show ?thesis
      unfolding discover_feeds_def Let_def t r
      by (auto simp: failed_def split: option.splits prod.splits)
  qed
  show "fetch_url (FeedFinder_init t r m q) env url s =
     (case acquire \<lparr>rate = q\<rparr> env (emit (FetchCall url) s) of
        (Inl e, s1) \<Rightarrow> (Inl e, s1)
      | (Inr u, s1) \<Rightarrow>
          (case execute \<lparr>max_retries = m, base_delay = 1\<rparr> (fetch env url) s1 of
             (Inr x, s2) \<Rightarrow> (Inr x, s2)
           | (Inl e, s2) \<Rightarrow> (Inr (Some ('''', 0)), emit (LogError url e) s2)))"
  proof -
    have l: "rate_limiter (FeedFinder_init t r m q) = \<lparr>rate = q\<rparr>"
      and x: "retry_strategy (FeedFinder_init t r m q) = \<lparr>max_retries = m, base_delay = 1\<rparr>"
      by (simp_all add: FeedFinder_init_def RateLimiter_init_def RetryStrategy_init_def
          default_base_delay_def)
    show ?thesis
      unfolding fetch_url_def l x by simp
  qed
  show "gets (snd (fetch_url (FeedFinder_init t r m q) env url s)) \<le> gets s + nat m"
    using fetch_url_gets [of "FeedFinder_init t r m q" env url s]
    by (simp add: FeedFinder_init_def RetryStrategy_init_def)
  show "fst (acquire \<lparr>rate = q\<rparr> env s) =
     (if q = 0 then Inl (ZeroDivisionError ''division by zero'') else Inr ())"
    by (simp add: acquire_def Let_def split_def)
  show "sleeps (trace (snd (acquire \<lparr>rate = q\<rparr> env s))) =
     sleeps (trace s) @
     (if q = 0 then []
      else if 0 < 1 / q - (clock env (ticks s) - last_request s)
      then [1 / q - (clock env (ticks s) - last_request s)] else [])"
    by (simp add: acquire_def emit_def time_time_def Let_def sleeps_append max_def)
  show "base_delay (retry_strategy (FeedFinder_init t r m q)) = default_base_delay"
    by (simp add: FeedFinder_init_def RetryStrategy_init_def)
  show "default_base_delay = 1"
    by (simp add: default_base_delay_def)
  show "default_FeedFinder = FeedFinder_init 10 5 3 2"
    by (simp add: default_FeedFinder_def)
qed

section \<open>The rate limiter\<close>

text \<open>
  Claim C9, as stated: the lock is never held across the sleep.  With the default rate and
  a clock at 0 the limiter sleeps half a second, and the lock is held when that sleep
  starts.
\<close>

theorem C9_lock_held_while_sleeping:
  "trace (snd (acquire (RateLimiter_init 2) down_env init_st))
     = [LockAcquire, Sleep (1 / 2), LockRelease] \<and>
   lock_at_sleeps False (trace (snd (acquire (RateLimiter_init 2) down_env init_st)))
     = [True]"
  by (simp add: acquire_def RateLimiter_init_def down_env_def init_st_def emit_def
      time_time_def Let_def)

text \<open>
  Claim C9, amended: the lock is taken first and released last, around the whole of
  \<^verbatim>\<open>acquire\<close>; the sleep, when there is one, happens in between, with the lock held.
\<close>

theorem C9_lock_around_whole_acquire:
  "\<exists>sl. trace (snd (acquire rl env s)) = trace s @ [LockAcquire] @ sl @ [LockRelease] \<and>
        (sl = [] \<or> (\<exists>w. 0 < w \<and> sl = [Sleep w])) \<and>
        lock_at_sleeps False ([LockAcquire] @ sl @ [LockRelease]) = map (\<lambda>e. True) sl"
  by (auto simp add: acquire_def emit_def time_time_def Let_def)

section \<open>The fetcher\<close>

text \<open>
  Claim C3: when the rate limiter has let the call through and the retried GET ends with
  an exception \<open>e\<close>, \<^verbatim>\<open>_fetch_url\<close> returns the pair of the empty body and status 0, no
  exception, and the last thing it does is to log the error.
\<close>

theorem C3_fetch_failure_is_data:
  assumes "acquire (rate_limiter ff) env (emit (FetchCall url) s) = (Inr (), s1)"
    and "execute (retry_strategy ff) (fetch env url) s1 = (Inl e, s2)"
  shows "fetch_url ff env url s = (Inr (Some ('''', 0)), emit (LogError url e) s2)"
  using assms by (simp add: fetch_url_def)

theorem C3_fetch_failure_is_data_witness:
  "fetch_url default_FeedFinder down_env ''u'' init_st =
     (Inr (Some ('''', 0)),
      \<lparr>last_request = 0, ticks = 2, gets = 3,
        trace = [FetchCall ''u'', LockAcquire, Sleep (1 / 2), LockRelease,
                 Get ''u'', Warning 1 (OtherError ''connection refused'') 1, Sleep 1,
                 Get ''u'', Warning 2 (OtherError ''connection refused'') 2, Sleep 2,
                 Get ''u'', LogError ''u'' (OtherError ''connection refused'')]\<rparr>)"
proof -
  let ?s1 = "\<lparr>last_request = 0, ticks = 2, gets = 0,
        trace = [FetchCall ''u'', LockAcquire, Sleep (1 / 2), LockRelease]\<rparr>"
  let ?s2 = "\<lparr>last_request = 0, ticks = 2, gets = 3,
        trace = [FetchCall ''u'', LockAcquire, Sleep (1 / 2), LockRelease,
                 Get ''u'', Warning 1 (OtherError ''connection refused'') 1, Sleep 1,
                 Get ''u'', Warning 2 (OtherError ''connection refused'') 2, Sleep 2,
                 Get ''u'']\<rparr>"
  have h1: "acquire (rate_limiter default_FeedFinder) down_env (emit (FetchCall ''u'') init_st)
              = (Inr (), ?s1)"
    by code_simp
  have h2: "execute (retry_strategy default_FeedFinder) (fetch down_env ''u'') ?s1
              = (Inl (OtherError ''connection refused''), ?s2)"
    by code_simp
  show ?thesis
    using C3_fetch_failure_is_data [OF h1 h2] by (simp add: emit_def)
qed

section \<open>The validator\<close>

text \<open>
  Claim C5: the validation step of \<^verbatim>\<open>_check_feed_url\<close> gives \<^verbatim>\<open>None\<close> when the status
  is not 200 or the body is empty, whatever the body is and without asking the parser.
  Otherwise, when the parser returns a document whose \<^verbatim>\<open>bozo\<close> entry is present and 0 and
  whose feed-level object \<open>d\<close> is present and not empty, it gives a candidate for the URL,
  of type ATOM exactly when some stretch of the body is \<^verbatim>\<open>atom\<close> up to case and RSS
  otherwise, with the title of \<open>d\<close> or the empty string when \<open>d\<close> has none.  When the parser
  returns anything else, a \<^verbatim>\<open>bozo\<close> entry that is absent or not 0, or a feed-level object
  that is absent or empty, it gives \<^verbatim>\<open>None\<close>.
\<close>

theorem C5_validate:
  "(status' \<noteq> 200 \<or> content = [] \<longrightarrow> validate env url content status' = Inr None) \<and>
   (status' = 200 \<and> content \<noteq> [] \<and> feedparser_parse env content = Inr p \<and>
      bozo p = Some 0 \<and> feed p = Some d \<and> d \<noteq> [] \<longrightarrow>
      (\<exists>fi. validate env url content status' = Inr (Some fi) \<and>
            feed_url fi = url \<and>
            (ftype fi = ATOM \<longleftrightarrow>
               (\<exists>pre mid post. content = pre @ mid @ post \<and> lower mid = ''atom'')) \<and>
            (ftype fi = RSS \<longleftrightarrow>
               \<not> (\<exists>pre mid post. content = pre @ mid @ post \<and> lower mid = ''atom'')) \<and>
            title fi = (case map_of d ''title'' of None \<Rightarrow> '''' | Some t \<Rightarrow> t))) \<and>
   (feedparser_parse env content = Inr p \<and>
      (bozo p \<noteq> Some 0 \<or> feed p = None \<or> feed p = Some []) \<longrightarrow>
      validate env url content status' = Inr None)"
proof (intro conjI impI)
  assume "status' \<noteq> 200 \<or> content = []"
  then show "validate env url content status' = Inr None"
    by (auto simp: validate_def)
next
  assume h: "status' = 200 \<and> content \<noteq> [] \<and> feedparser_parse env content = Inr p \<and>
      bozo p = Some 0 \<and> feed p = Some d \<and> d \<noteq> []"
  then have "get_bozo p = 0" and "get_feed p = d"
    by (simp_all add: get_bozo_def get_feed_def)
  with h show "\<exists>fi. validate env url content status' = Inr (Some fi) \<and>
            feed_url fi = url \<and>
            (ftype fi = ATOM \<longleftrightarrow>
               (\<exists>pre mid post. content = pre @ mid @ post \<and> lower mid = ''atom'')) \<and>
            (ftype fi = RSS \<longleftrightarrow>
               \<not> (\<exists>pre mid post. content = pre @ mid @ post \<and> lower mid = ''atom'')) \<and>
            title fi = (case map_of d ''title'' of None \<Rightarrow> '''' | Some t \<Rightarrow> t)"
    unfolding contains_lower_iff [symmetric]
    by (simp add: validate_def dict_get_def)
next
  assume h: "feedparser_parse env content = Inr p \<and>
      (bozo p \<noteq> Some 0 \<or> feed p = None \<or> feed p = Some [])"
  then have "get_bozo p \<noteq> 0 \<or> get_feed p = []"
    by (cases "bozo p") (auto simp: get_bozo_def get_feed_def)
  with h show "validate env url content status' = Inr None"
    by (auto simp: validate_def)
qed

text \<open>
  The witness: a 404, a well-formed Atom document, a page that is no feed at all, and a
  truncated document that has a feed-level object but is reported malformed.
\<close>

theorem C5_validate_witness:
  "validate (site_env [] []) ''u'' atom_body 404 = Inr None \<and>
   validate (site_env [] []) ''u'' atom_body 200
     = Inr (Some \<lparr>feed_url = ''u'', ftype = ATOM, title = ''Notes''\<rparr>) \<and>
   validate (site_env [] []) ''u'' ''<html></html>'' 200 = Inr None \<and>
   validate (site_env [] []) ''u'' ''<rss><title>Broken</title>'' 200 = Inr None"
proof -
  let ?env = "site_env [] []"
  let ?p = "\<lparr>bozo = Some 0, feed = Some [(''title'', ''Notes'')]\<rparr>"
  let ?q = "\<lparr>bozo = Some 1, feed = Some []\<rparr>"
  let ?b = "\<lparr>bozo = Some 1, feed = Some [(''title'', ''Broken'')]\<rparr>"
  have a: "(404::int) \<noteq> 200 \<or> atom_body = []"
    by simp
  have b: "(200::int) = 200 \<and> atom_body \<noteq> [] \<and> feedparser_parse ?env atom_body = Inr ?p \<and>
           bozo ?p = Some 0 \<and> feed ?p = Some [(''title'', ''Notes'')] \<and>
           [(''title'', ''Notes'')] \<noteq> []"
    by (simp add: site_env_def demo_parse_def atom_body_def rss_body_def)
  have c: "feedparser_parse ?env ''<html></html>'' = Inr ?q \<and>
           (bozo ?q \<noteq> Some 0 \<or> feed ?q = None \<or> feed ?q = Some [])"
    by (simp add: site_env_def demo_parse_def atom_body_def rss_body_def)
  have d: "feedparser_parse ?env ''<rss><title>Broken</title>'' = Inr ?b \<and>
           (bozo ?b \<noteq> Some 0 \<or> feed ?b = None \<or> feed ?b = Some [])"
    by (simp add: site_env_def demo_parse_def atom_body_def rss_body_def)
  from a C5_validate [of 404 atom_body ?env "''u''"]
  have 1: "validate ?env ''u'' atom_body 404 = Inr None"
    by blast
  from b C5_validate [of 200 atom_body ?env "''u''" ?p "[(''title'', ''Notes'')]"]
  obtain fi where v: "validate ?env ''u'' atom_body 200 = Inr (Some fi)"
    and u: "feed_url fi = ''u''"
    and ty: "ftype fi = ATOM \<longleftrightarrow>
               (\<exists>pre mid post. atom_body = pre @ mid @ post \<and> lower mid = ''atom'')"
    and ti: "title fi = (case map_of [(''title'', ''Notes'')] ''title'' of
                          None \<Rightarrow> '''' | Some t \<Rightarrow> t)"
    by blast
  have "ftype fi = ATOM"
    using ty atom_body_atom by (simp add: contains_lower_iff)
  then have "fi = \<lparr>feed_url = ''u'', ftype = ATOM, title = ''Notes''\<rparr>"
    using u ti by simp
  with v have 2: "validate ?env ''u'' atom_body 200
     = Inr (Some \<lparr>feed_url = ''u'', ftype = ATOM, title = ''Notes''\<rparr>)"
    by simp
  from c C5_validate [of 200 "''<html></html>''" ?env "''u''" ?q]
  have 3: "validate ?env ''u'' ''<html></html>'' 200 = Inr None"
    by blast
  from d C5_validate [of 200 "''<rss><title>Broken</title>''" ?env "''u''" ?b]
  have 4: "validate ?env ''u'' ''<rss><title>Broken</title>'' 200 = Inr None"
    by blast
  from 1 2 3 4 show ?thesis
    by blast
qed

section \<open>The two phases of a discovery\<close>

text \<open>
  When the session is set up and the loop over the known paths ends without an exception,
  having appended the feeds \<open>fs\<close> and left the state \<open>s1\<close>: if \<open>fs\<close> is not empty the run ends
  there; the URL of the site is fetched after the known paths exactly when \<open>fs\<close> is empty;
  and when that fetch returns status 200 with a non-empty body, the candidates of the
  scanner are validated one after the other, in scan order.
\<close>

lemma after_known_paths:
  assumes "ClientSession env (timeout ff) (max_redirects ff) = None"
    and "check_paths ff env (clean_url raw) COMMON_PATHS [] s = ((None, fs), s1)"
    and "discover_feeds ff env raw s = (r, s')"
  shows
    "(fs \<noteq> [] \<longrightarrow>
        s' = s1 \<and>
        r = \<lparr>site_url = clean_url raw, feeds = fs, status = SUCCESS, error = None\<rparr>) \<and>
     ((fs = []) =
        (\<exists>rest. fetch_calls (trace s') = fetch_calls (trace s1) @ clean_url raw # rest)) \<and>
     (\<forall>content soup cands.
        fs = [] \<and>
        fst (fetch_url ff env (clean_url raw) s1) = Inr (Some (content, 200)) \<and>
        content \<noteq> [] \<and>
        BeautifulSoup env content = Inr soup \<and>
        scan env (clean_url raw) soup = Inr cands \<and> [] \<notin> set cands \<longrightarrow>
        (\<exists>x. validate_all ff env cands (snd (fetch_url ff env (clean_url raw) s1)) = (x, s') \<and>
           (case x of
              Inl e \<Rightarrow> status r = ERROR \<and> feeds r = []
            | Inr found \<Rightarrow>
                r = \<lparr>site_url = clean_url raw, feeds = found, status = SUCCESS, error = None\<rparr> \<and>
                fetch_calls (trace s') = fetch_calls (trace s1) @ clean_url raw # cands)))"
proof (intro conjI allI impI)
  let ?url = "clean_url raw"
  let ?res = "\<lparr>site_url = ?url, feeds = [], status = SUCCESS, error = None\<rparr>"
  have nonempty: "fs \<noteq> [] \<Longrightarrow> s' = s1 \<and> r = ?res\<lparr>feeds := fs\<rparr>"
    using assms by (simp add: discover_feeds_def Let_def)
  have empty: "fs = [] \<Longrightarrow> check_html ff env ?url ?res s1 = (r, s')"
    using assms by (simp add: discover_feeds_def Let_def)
  {
    assume "fs \<noteq> []"
    with nonempty show "s' = s1"
      and "r = \<lparr>site_url = ?url, feeds = fs, status = SUCCESS, error = None\<rparr>"
      by simp_all
  }
  show "(fs = []) =
        (\<exists>rest. fetch_calls (trace s') = fetch_calls (trace s1) @ ?url # rest)"
  proof (cases "fs = []")
    case True
    then show ?thesis using check_html_grows [OF empty] by simp
  next
    case False
    then show ?thesis using nonempty by simp
  qed
  {
    fix content soup cands
    assume h: "fs = [] \<and>
        fst (fetch_url ff env ?url s1) = Inr (Some (content, 200)) \<and>
        content \<noteq> [] \<and>
        BeautifulSoup env content = Inr soup \<and>
        scan env ?url soup = Inr cands \<and> [] \<notin> set cands"
    obtain s2 where f: "fetch_url ff env ?url s1 = (Inr (Some (content, 200)), s2)"
      using h by (cases "fetch_url ff env ?url s1") auto
    then have s2: "snd (fetch_url ff env ?url s1) = s2"
      by simp
    have fc2: "fetch_calls (trace s2) = fetch_calls (trace s1) @ [?url]"
      using fetch_url_fetch_calls [of ff env ?url s1] s2 by simp
    have ref: "find_feeds_in_html ff env ?url content s2 = validate_all ff env cands s2"
    proof (rule find_feeds_in_html_refines)
      show "BeautifulSoup env content = Inr soup" using h by blast
      show "scan env ?url soup = Inr cands" using h by blast
      show "[] \<notin> set cands" using h by blast
    qed
    obtain x s3 where v: "validate_all ff env cands s2 = (x, s3)"
      by (cases "validate_all ff env cands s2")
    have run: "check_html ff env ?url ?res s1 = (r, s')"
      using h empty by simp
    have s3: "s3 = s'"
      using run f h ref v by (auto simp: check_html_def split: sum.splits)
    have "case x of
              Inl e \<Rightarrow> status r = ERROR \<and> feeds r = []
            | Inr found \<Rightarrow>
                r = \<lparr>site_url = ?url, feeds = found, status = SUCCESS, error = None\<rparr> \<and>
                fetch_calls (trace s') = fetch_calls (trace s1) @ ?url # cands"
    proof (cases x)
      case (Inl e)
      then show ?thesis
        using run f h ref v by (auto simp: check_html_def failed_def)
    next
      case (Inr found)
      then have "fetch_calls (trace s3) = fetch_calls (trace s2) @ cands"
        using validate_all_fetch_calls v by blast
      then show ?thesis
        using Inr run f h ref v fc2 s3 by (auto simp: check_html_def)
    qed
    then show "\<exists>x. validate_all ff env cands (snd (fetch_url ff env ?url s1)) = (x, s') \<and>
           (case x of
              Inl e \<Rightarrow> status r = ERROR \<and> feeds r = []
            | Inr found \<Rightarrow>
                r = \<lparr>site_url = ?url, feeds = found, status = SUCCESS, error = None\<rparr> \<and>
                fetch_calls (trace s') = fetch_calls (trace s1) @ ?url # cands)"
      unfolding s2 using v s3 by blast
  }
qed




section \<open>The known paths\<close>

text \<open>
  Claim C2.  When no error reaches the orchestrator (the result has status SUCCESS), the
  loop over the known paths has probed every one of the sixteen paths of \<^verbatim>\<open>COMMON_PATHS\<close>,
  in list order, whatever the outcomes: the fetch calls of the run begin with the sixteen
  resolved URLs, in that order.  The feeds this phase finds are the positive outcomes, in
  path order; so when the probes of \<^verbatim>\<open>/feed\<close> and \<^verbatim>\<open>/rss.xml\<close> give the candidates \<open>f1\<close> and
  \<open>f2\<close> and every other probe gives none, the feeds of the result are \<open>[f1, f2]\<close>.
\<close>

theorem C2_every_known_path_probed:
  assumes "discover_feeds ff env raw s = (r, s')" and "status r = SUCCESS"
  shows
    "COMMON_PATHS =
       [''/feed'', ''/rss'', ''/atom.xml'', ''/feed.xml'', ''/rss.xml'', ''/index.xml'',
        ''/feed/atom'', ''/feed/rss'', ''/rss/atom'', ''/blog/feed'', ''/blog.atom'',
        ''/feed/wp-rss2.xml'', ''/wp-feed.php'', ''/wp-rss.php'',
        ''/blog/index.rss'', ''/syndication.axd''] \<and>
     map fst (probes ff env (clean_url raw) COMMON_PATHS s) = COMMON_PATHS \<and>
     (\<exists>us rest. map (urljoin env (clean_url raw)) COMMON_PATHS = map Inr us \<and>
        fetch_calls (trace s') = fetch_calls (trace s) @ us @ rest) \<and>
     (List.map_filter snd (probes ff env (clean_url raw) COMMON_PATHS s) \<noteq> [] \<longrightarrow>
        feeds r = List.map_filter snd (probes ff env (clean_url raw) COMMON_PATHS s)) \<and>
     (\<forall>f1 f2.
        map snd (probes ff env (clean_url raw) COMMON_PATHS s) =
          map (\<lambda>p. if p = ''/feed'' then Some f1 else if p = ''/rss.xml'' then Some f2 else None)
            COMMON_PATHS \<longrightarrow>
        feeds r = [f1, f2])"
proof -
  let ?url = "clean_url raw"
  let ?ps = "probes ff env ?url COMMON_PATHS s"
  from discover_feeds_success [OF assms] obtain fs s1
    where cp: "check_paths ff env ?url COMMON_PATHS [] s = ((None, fs), s1)"
      and ne: "fs \<noteq> [] \<longrightarrow> feeds r = fs \<and> s' = s1"
      and em': "fs = [] \<longrightarrow>
           check_html ff env ?url
             \<lparr>site_url = ?url, feeds = [], status = SUCCESS, error = None\<rparr> s1 = (r, s')"
    by blast
  have em: "fs = [] \<Longrightarrow>
           check_html ff env ?url
             \<lparr>site_url = ?url, feeds = [], status = SUCCESS, error = None\<rparr> s1 = (r, s')"
    using em' by simp
  have a: "COMMON_PATHS =
       [''/feed'', ''/rss'', ''/atom.xml'', ''/feed.xml'', ''/rss.xml'', ''/index.xml'',
        ''/feed/atom'', ''/feed/rss'', ''/rss/atom'', ''/blog/feed'', ''/blog.atom'',
        ''/feed/wp-rss2.xml'', ''/wp-feed.php'', ''/wp-rss.php'',
        ''/blog/index.rss'', ''/syndication.axd'']"
    by (simp add: COMMON_PATHS_def)
  have pr: "map fst ?ps = COMMON_PATHS" and fs: "fs = List.map_filter snd ?ps"
    using check_paths_probes [OF cp] by simp_all
  from check_paths_fetch_calls [OF cp] obtain us
    where us: "map (urljoin env ?url) COMMON_PATHS = map Inr us"
      and fc: "fetch_calls (trace s1) = fetch_calls (trace s) @ us"
    by blast
  have "\<exists>rest. fetch_calls (trace s') = fetch_calls (trace s) @ us @ rest"
  proof (cases "fs = []")
    case True
    from check_html_grows [OF em [OF True]] obtain rest
      where "fetch_calls (trace s') = fetch_calls (trace s1) @ ?url # rest"
      by blast
    then have "fetch_calls (trace s') = fetch_calls (trace s) @ us @ (?url # rest)"
      using fc by simp
    then show ?thesis by blast
  next
    case False
    then have "fetch_calls (trace s') = fetch_calls (trace s) @ us @ []"
      using ne fc by simp
    then show ?thesis by blast
  qed
  with us have b: "\<exists>us rest. map (urljoin env ?url) COMMON_PATHS = map Inr us \<and>
        fetch_calls (trace s') = fetch_calls (trace s) @ us @ rest"
    by blast
  have c: "List.map_filter snd ?ps \<noteq> [] \<longrightarrow> feeds r = List.map_filter snd ?ps"
    using ne fs by simp
  have d: "\<forall>f1 f2.
        map snd ?ps =
          map (\<lambda>p. if p = ''/feed'' then Some f1 else if p = ''/rss.xml'' then Some f2 else None)
            COMMON_PATHS \<longrightarrow>
        feeds r = [f1, f2]"
  proof (intro allI impI)
    fix f1 f2
    assume h: "map snd ?ps =
          map (\<lambda>p. if p = ''/feed'' then Some f1 else if p = ''/rss.xml'' then Some f2 else None)
            COMMON_PATHS"
    have "List.map_filter snd ?ps = List.map_filter id (map snd ?ps)"
      by (rule map_filter_snd)
    also have "\<dots> = [f1, f2]"
      unfolding h by (simp add: COMMON_PATHS_def)
    finally have "fs = [f1, f2]"
      using fs by simp
    then show "feeds r = [f1, f2]"
      using ne by simp
  qed
  from a pr b c d show ?thesis
    by (intro conjI)
qed

text \<open>The witness: the site that serves a feed at \<^verbatim>\<open>/feed\<close> and one at \<^verbatim>\<open>/rss.xml\<close>.\<close>

theorem C2_every_known_path_probed_witness:
  "status (fst (discover_feeds default_FeedFinder two_feeds_env ''blog.example/'' init_st))
     = SUCCESS \<and>
   map fst (probes default_FeedFinder two_feeds_env ''https://blog.example'' COMMON_PATHS init_st)
     = COMMON_PATHS \<and>
   feeds (fst (discover_feeds default_FeedFinder two_feeds_env ''blog.example/'' init_st))
     = [feed_at_feed, feed_at_rss_xml]"
proof -
  let ?ff = default_FeedFinder
  let ?d = "discover_feeds ?ff two_feeds_env ''blog.example/'' init_st"
  have h1: "?d = (fst ?d, snd ?d)"
    by simp
  have h2: "status (fst ?d) = SUCCESS"
    by (simp add: two_feeds_discover)
  note inst = C2_every_known_path_probed [OF h1 h2, unfolded clean_blog_example]
  have p: "map snd (probes ?ff two_feeds_env ''https://blog.example'' COMMON_PATHS init_st) =
          map (\<lambda>p. if p = ''/feed'' then Some feed_at_feed
                    else if p = ''/rss.xml'' then Some feed_at_rss_xml else None) COMMON_PATHS"
    by (simp add: probes_outcomes [OF two_feeds_probes] comp_def)
  from inst [THEN conjunct2, THEN conjunct1]
    inst [THEN conjunct2, THEN conjunct2, THEN conjunct2, THEN conjunct2, rule_format, OF p] h2
  show ?thesis
    by (intro conjI)
qed

section \<open>A link element without an href\<close>

lemma urljoin_empty_ref: "url \<noteq> [] \<Longrightarrow> urljoin env url '''' = Inr url"
  by (simp add: urljoin_def)

text \<open>
  Claim C10.  In the loop over the \<^verbatim>\<open>link\<close> elements, an element whose \<^verbatim>\<open>type\<close> is one of
  the two feed types and which has no \<^verbatim>\<open>href\<close> is not skipped.  Its \<^verbatim>\<open>href\<close> defaults to the
  empty string, which \<^verbatim>\<open>urljoin\<close> resolves to the base URL; the base URL is the cleaned URL
  of the site, which is never empty, so the guard \<^verbatim>\<open>if feed_url:\<close> lets it through, and
  the page itself is fetched and validated as a feed candidate.
\<close>

theorem C10_link_without_href:
  assumes "map_of (attrs link) ''type'' = Some ''application/rss+xml'' \<or>
           map_of (attrs link) ''type'' = Some ''application/atom+xml''"
    and "map_of (attrs link) ''href'' = None"
  shows
    "clean_url raw \<noteq> [] \<and>
     urljoin env (clean_url raw) '''' = Inr (clean_url raw) \<and>
     check_link_tags ff env (clean_url raw) (link # links) fs s =
       (case check_feed_url ff env (clean_url raw) s of
          (Inl e, s1) \<Rightarrow> (Inl e, s1)
        | (Inr None, s1) \<Rightarrow> check_link_tags ff env (clean_url raw) links fs s1
        | (Inr (Some fi), s1) \<Rightarrow> check_link_tags ff env (clean_url raw) links (fs @ [fi]) s1) \<and>
     fetch_calls (trace (snd (check_feed_url ff env (clean_url raw) s))) =
       fetch_calls (trace s) @ [clean_url raw]"
proof -
  have n: "clean_url raw \<noteq> []"
    by (rule clean_url_nonempty)
  have u: "urljoin env (clean_url raw) '''' = Inr (clean_url raw)"
    using n by (rule urljoin_empty_ref)
  have t: "el_get link ''type'' \<in> Some ` set feed_mime_types"
    using assms(1) by (auto simp: el_get_def feed_mime_types_def)
  have h: "el_get_default link ''href'' '''' = ''''"
    using assms(2) by (simp add: el_get_default_def el_get_def)
  have c: "check_link_tags ff env (clean_url raw) (link # links) fs s =
       (case check_feed_url ff env (clean_url raw) s of
          (Inl e, s1) \<Rightarrow> (Inl e, s1)
        | (Inr None, s1) \<Rightarrow> check_link_tags ff env (clean_url raw) links fs s1
        | (Inr (Some fi), s1) \<Rightarrow> check_link_tags ff env (clean_url raw) links (fs @ [fi]) s1)"
    using t n by (simp add: h u)
  from n u c check_feed_url_fetch_calls [of ff env "clean_url raw" s] show ?thesis
    by (intro conjI)
qed

text \<open>
  The witness: a site whose home page is an Atom document, and on which the HTML parser
  finds one \<^verbatim>\<open>link\<close> element of a feed type without an \<^verbatim>\<open>href\<close>.  The home page is reported
  as a feed.
\<close>

theorem C10_link_without_href_witness:
  "fst (check_link_tags default_FeedFinder
          (site_env [(''https://blog.example'', atom_body)] [bare_link])
          (clean_url ''blog.example/'') [bare_link] [] init_st) =
     Inr [\<lparr>feed_url = ''https://blog.example'', ftype = ATOM, title = ''Notes''\<rparr>] \<and>
   fetch_calls (trace (snd (check_link_tags default_FeedFinder
          (site_env [(''https://blog.example'', atom_body)] [bare_link])
          (clean_url ''blog.example/'') [bare_link] [] init_st))) = [''https://blog.example'']"
proof -
  let ?env = "site_env [(''https://blog.example'', atom_body)] [bare_link]"
  let ?ff = default_FeedFinder
  let ?url = "''https://blog.example''"
  let ?c = "check_feed_url ?ff ?env ?url init_st"
  have t: "map_of (attrs bare_link) ''type'' = Some ''application/rss+xml'' \<or>
           map_of (attrs bare_link) ''type'' = Some ''application/atom+xml''"
    and h: "map_of (attrs bare_link) ''href'' = None"
    by (simp_all add: bare_link_def)
  note inst = C10_link_without_href [OF t h, of "''blog.example/''" "?env" "?ff" "[]" "[]" "init_st",
      unfolded clean_blog_example]
  have p: "fst ?c = Inr (Some \<lparr>feed_url = ?url, ftype = ATOM, title = ''Notes''\<rparr>)"
    by (simp add: site_probe validate_atom)
  have run: "check_link_tags ?ff ?env ?url [bare_link] [] init_st =
          (Inr [\<lparr>feed_url = ?url, ftype = ATOM, title = ''Notes''\<rparr>], snd ?c)"
    using inst [THEN conjunct2, THEN conjunct2, THEN conjunct1] p
    by (cases ?c) simp
  have fc: "fetch_calls (trace (snd ?c)) = [?url]"
    using inst [THEN conjunct2, THEN conjunct2, THEN conjunct2]
    by (simp add: init_st_def)
  show ?thesis
    unfolding clean_blog_example run using fc by simp
qed

section \<open>The feeds of a failed discovery\<close>





section \<open>Duplicates\<close>

text \<open>
  The site whose home page gives \<^verbatim>\<open>/news.xml\<close> twice: after the sixteen known paths and the
  home page, the feed is fetched and validated twice, and reported twice.
\<close>

lemma linked_discover:
  "discover_feeds default_FeedFinder linked_env ''blog.example/'' init_st = (r, s') \<Longrightarrow>
     r = \<lparr>site_url = ''https://blog.example'', feeds = [feed_at_news, feed_at_news],
          status = SUCCESS, error = None\<rparr> \<and>
     fetch_calls (trace s') =
       map ((@) ''https://blog.example'') COMMON_PATHS @
       [''https://blog.example'', ''https://blog.example/news.xml'',
        ''https://blog.example/news.xml'']"
proof -
  let ?ff = default_FeedFinder
  let ?url = "''https://blog.example''"
  let ?news = "''https://blog.example/news.xml''"
  let ?cp = "check_paths ?ff linked_env ?url COMMON_PATHS [] init_st"
  let ?s2 = "snd (fetch_url ?ff linked_env ?url (snd ?cp))"
  assume d: "discover_feeds ?ff linked_env ''blog.example/'' init_st = (r, s')"
  have h1: "ClientSession linked_env (timeout ?ff) (max_redirects ?ff) = None"
    by (simp add: linked_env_def site_env_simps)
  have cp: "?cp = ((None, []), snd ?cp)"
    using linked_known_paths [of init_st] by (simp add: prod_eq_iff)
  then have h2: "check_paths ?ff linked_env (clean_url ''blog.example/'') COMMON_PATHS [] init_st
                = ((None, []), snd ?cp)"
    by (simp add: clean_blog_example)
  have h4: "[] = ([] :: feed_info list) \<and>
        fst (fetch_url ?ff linked_env (clean_url ''blog.example/'') (snd ?cp))
          = Inr (Some (''<html>home</html>'', 200)) \<and>
        ''<html>home</html>'' \<noteq> [] \<and>
        BeautifulSoup linked_env ''<html>home</html>'' = Inr [news_link, news_anchor] \<and>
        scan linked_env (clean_url ''blog.example/'') [news_link, news_anchor]
          = Inr [?news, ?news] \<and>
        [] \<notin> set [?news, ?news]"
    by (simp add: clean_blog_example linked_home news_scan)
       (simp add: linked_env_def site_env_simps)
  from after_known_paths [OF h1 h2 d, THEN conjunct2, THEN conjunct2, rule_format, OF h4]
  obtain x where v: "validate_all ?ff linked_env [?news, ?news] ?s2 = (x, s')"
    and c: "case x of
              Inl e \<Rightarrow> status r = ERROR \<and> feeds r = []
            | Inr found \<Rightarrow>
                r = \<lparr>site_url = clean_url ''blog.example/'', feeds = found,
                          status = SUCCESS, error = None\<rparr> \<and>
                fetch_calls (trace s') =
                  fetch_calls (trace (snd ?cp)) @ clean_url ''blog.example/'' # [?news, ?news]"
    unfolding clean_blog_example by blast
  have "fst (validate_all ?ff linked_env [?news, ?news] ?s2)
          = Inr (List.map_filter (\<lambda>u. Some feed_at_news) [?news, ?news])"
    by (rule validate_all_outcomes) (simp add: news_probe)
  then have x: "x = Inr [feed_at_news, feed_at_news]"
    using v by (simp add: List.map_filter_simps)
  from check_paths_fetch_calls [OF cp] obtain us
    where us: "map (urljoin linked_env ?url) COMMON_PATHS = map Inr us"
      and fc: "fetch_calls (trace (snd ?cp)) = fetch_calls (trace init_st) @ us"
    by blast
  have "map (urljoin linked_env ?url) COMMON_PATHS = map Inr (map ((@) ?url) COMMON_PATHS)"
    by (simp add: linked_env_def site_env_simps)
  with us have "map Inr us = (map Inr (map ((@) ?url) COMMON_PATHS) :: (exn + string) list)"
    by (simp only:)
  then have "us = map ((@) ?url) COMMON_PATHS"
    by (rule map_injective) simp
  with fc have "fetch_calls (trace (snd ?cp)) = map ((@) ?url) COMMON_PATHS"
    by (simp add: init_st_def)
  with c x show ?thesis
    by (simp add: clean_blog_example)
qed

text \<open>
  Claim C7, as stated: for some site a feed appears twice in one result, once from the
  known-path phase and once from the HTML fallback.  There is no such run: no result is made
  of the feeds \<open>fs\<close> appended by the loop over the known paths followed by feeds \<open>html\<close> of
  the fallback with a feed in both.
\<close>

theorem C7_no_feed_from_both_phases:
  "\<not> (\<exists>ff env raw s eo fs s1 html f.
        check_paths ff env (clean_url raw) COMMON_PATHS [] s = ((eo, fs), s1) \<and>
        f \<in> set fs \<and> f \<in> set html \<and>
        feeds (fst (discover_feeds ff env raw s)) = fs @ html)"
proof
  assume "\<exists>ff env raw s eo fs s1 html f.
        check_paths ff env (clean_url raw) COMMON_PATHS [] s = ((eo, fs), s1) \<and>
        f \<in> set fs \<and> f \<in> set html \<and>
        feeds (fst (discover_feeds ff env raw s)) = fs @ html"
  then obtain ff env raw s eo fs s1 html f
    where cp: "check_paths ff env (clean_url raw) COMMON_PATHS [] s = ((eo, fs), s1)"
      and f: "f \<in> set fs" "f \<in> set html"
      and d: "feeds (fst (discover_feeds ff env raw s)) = fs @ html"
    by blast
  have ne: "fs \<noteq> [] \<or> eo \<noteq> None" and h: "html \<noteq> []"
    using f by auto
  show False
  proof (cases "ClientSession env (timeout ff) (max_redirects ff)")
    case None
    from discover_feeds_after_hit [OF cp None ne] d h show False
      by simp
  next
    case (Some e)
    then have "feeds (fst (discover_feeds ff env raw s)) = []"
      by (simp add: discover_feeds_def Let_def failed_def)
    with d f show False
      by simp
  qed
qed

text \<open>
  Claim C7, amended.  Nothing suppresses duplicates, but the two phases never both
  contribute to a result: when the session is set up and the loop over the known paths has
  appended feeds, the discovery ends with that loop, and its feeds are those.  Duplicates
  arise within the HTML fallback: on the site whose known paths give nothing and whose home
  page gives \<^verbatim>\<open>/news.xml\<close> both in a \<^verbatim>\<open>link\<close> element and in an anchor, that URL is fetched
  and validated twice and appears twice in the feeds of the result.
\<close>

theorem C7_duplicates_within_html_fallback:
  "(check_paths ff env (clean_url raw) COMMON_PATHS [] s = ((eo, fs), s1) \<and> fs \<noteq> [] \<and>
    ClientSession env (timeout ff) (max_redirects ff) = None \<longrightarrow>
      discover_feeds ff env raw s =
        (\<lparr>site_url = clean_url raw, feeds = fs,
          status = (if eo = None then SUCCESS else ERROR), error = map_option str eo\<rparr>, s1)) \<and>
   fst (check_paths default_FeedFinder linked_env (clean_url ''blog.example/'')
          COMMON_PATHS [] init_st) = (None, []) \<and>
   feeds (fst (discover_feeds default_FeedFinder linked_env ''blog.example/'' init_st))
     = [feed_at_news, feed_at_news] \<and>
   fetch_calls (trace (snd (discover_feeds default_FeedFinder linked_env ''blog.example/''
                              init_st))) =
     map ((@) ''https://blog.example'') COMMON_PATHS @
     [''https://blog.example'', ''https://blog.example/news.xml'',
      ''https://blog.example/news.xml'']"
proof -
  let ?d = "discover_feeds default_FeedFinder linked_env ''blog.example/'' init_st"
  have a: "check_paths ff env (clean_url raw) COMMON_PATHS [] s = ((eo, fs), s1) \<and> fs \<noteq> [] \<and>
    ClientSession env (timeout ff) (max_redirects ff) = None \<longrightarrow>
      discover_feeds ff env raw s =
        (\<lparr>site_url = clean_url raw, feeds = fs,
          status = (if eo = None then SUCCESS else ERROR), error = map_option str eo\<rparr>, s1)"
    using discover_feeds_after_hit [of ff env raw s eo fs s1] by blast
  have b: "fst (check_paths default_FeedFinder linked_env (clean_url ''blog.example/'')
               COMMON_PATHS [] init_st) = (None, [])"
    by (simp add: clean_blog_example linked_known_paths)
  have "?d = (fst ?d, snd ?d)"
    by simp
  from linked_discover [OF this]
  have c: "feeds (fst ?d) = [feed_at_news, feed_at_news]"
    and d: "fetch_calls (trace (snd ?d)) =
     map ((@) ''https://blog.example'') COMMON_PATHS @
     [''https://blog.example'', ''https://blog.example/news.xml'',
      ''https://blog.example/news.xml'']"
    by simp_all
  from a b c d show ?thesis
    by (intro conjI)
qed

text \<open>The witness: the site with two known-path feeds.\<close>

theorem C7_duplicates_within_html_fallback_witness:
  "discover_feeds default_FeedFinder two_feeds_env ''blog.example/'' init_st =
     (\<lparr>site_url = ''https://blog.example'', feeds = [feed_at_feed, feed_at_rss_xml],
       status = SUCCESS, error = None\<rparr>,
      snd (check_paths default_FeedFinder two_feeds_env ''https://blog.example''
             COMMON_PATHS [] init_st))"
proof -
  let ?ff = default_FeedFinder
  let ?cp = "check_paths ?ff two_feeds_env ''https://blog.example'' COMMON_PATHS [] init_st"
  have h: "check_paths ?ff two_feeds_env (clean_url ''blog.example/'') COMMON_PATHS [] init_st
             = ((None, [feed_at_feed, feed_at_rss_xml]), snd ?cp) \<and>
           [feed_at_feed, feed_at_rss_xml] \<noteq> [] \<and>
           ClientSession two_feeds_env (timeout ?ff) (max_redirects ?ff) = None"
    using two_feeds_known_paths [of init_st]
    by (simp add: clean_blog_example prod_eq_iff two_feeds_env_def site_env_simps)
  from C7_duplicates_within_html_fallback [THEN conjunct1, rule_format, OF h]
  show ?thesis
    by (simp add: clean_blog_example)
qed

end
